theory Spec2Isabelle
  imports Main
begin

section \<open>Outcomes that are not a normal return\<close>

text \<open>
  A call of the C++ code either returns, or never returns because it waits on the pool's
  condition variable with nobody left to signal it, or leaves the language's defined
  behaviour (\<^verbatim>\<open>back()\<close> on an empty \<^verbatim>\<open>std::list\<close>, an iterator that names no node).
  The last two are values of the model, so that "the call returns" is something to prove.
  Memory is taken to suffice: no allocation fails.
\<close>

datatype halt = Undefined_Behaviour | Blocked_Forever

section \<open>The eviction cache: class LRUCache\<close>

text \<open>
  \<^verbatim>\<open>std::list<std::pair<std::string, std::string>> cache_items_list_\<close> is a list of nodes,
  front first. A \<^verbatim>\<open>std::list\<close> iterator names one node and stays valid while the node
  lives, whatever happens to its neighbours; it is modelled as the node's address, carried
  with the node. \<^verbatim>\<open>std::map<std::string, iterator> cache_items_map_\<close> holds at most one
  iterator per key and is never iterated over, so it is kept as an association list with
  unique keys whose order means nothing. Members keep their names without the trailing
  underscore. \<^verbatim>\<open>size_t\<close> values are natural numbers: the class compares them and never
  computes with them.
\<close>

type_synonym iterator = nat
type_synonym node = "iterator \<times> (string \<times> string)"

record LRUCache =
  capacity :: nat
  cache_items_list :: "node list"
  cache_items_map :: "(string \<times> iterator) list"

text \<open>\<^verbatim>\<open>LRUCache(size_t capacity) : capacity_(capacity) {}\<close>\<close>

definition new_LRUCache :: "nat \<Rightarrow> LRUCache" where
  "new_LRUCache n =
     \<lparr>capacity = n, cache_items_list = [], cache_items_map = []\<rparr>"

subsection \<open>The container operations the class uses\<close>

text \<open>\<^verbatim>\<open>cache_items_map_.find(key)\<close>: the iterator stored under the key, if any.\<close>

definition map_find :: "string \<Rightarrow> (string \<times> iterator) list \<Rightarrow> iterator option" where
  "map_find key m = map_of m key"

text \<open>\<^verbatim>\<open>cache_items_map_.erase(key)\<close>, also \<^verbatim>\<open>erase(it)\<close> for the entry found under the key.\<close>

definition map_erase :: "string \<Rightarrow> (string \<times> iterator) list \<Rightarrow> (string \<times> iterator) list" where
  "map_erase key m = filter (\<lambda>p. fst p \<noteq> key) m"

text \<open>\<^verbatim>\<open>cache_items_map_[key] = it\<close>: insert the key or overwrite what it holds.\<close>

definition map_assign ::
  "string \<Rightarrow> iterator \<Rightarrow> (string \<times> iterator) list \<Rightarrow> (string \<times> iterator) list" where
  "map_assign key it m = (key, it) # filter (\<lambda>p. fst p \<noteq> key) m"

text \<open>Dereferencing a list iterator: the pair in the node it names; no node, no value.\<close>

definition deref :: "iterator \<Rightarrow> node list \<Rightarrow> (string \<times> string) option" where
  "deref it l = map_of l it"

text \<open>
  \<^verbatim>\<open>l.splice(l.begin(), l, it)\<close>: the node named by \<open>it\<close> is unlinked and relinked at the
  front; every other node keeps its place.
\<close>

definition splice_begin :: "iterator \<Rightarrow> node list \<Rightarrow> halt + node list" where
  "splice_begin it l =
     (case deref it l of
        None \<Rightarrow> Inl Undefined_Behaviour
      | Some e \<Rightarrow> Inr ((it, e) # filter (\<lambda>n. fst n \<noteq> it) l))"

text \<open>\<^verbatim>\<open>it->second = value\<close> on the node named by \<open>it\<close>.\<close>

definition assign_second :: "iterator \<Rightarrow> string \<Rightarrow> node list \<Rightarrow> halt + node list" where
  "assign_second it v l =
     (case deref it l of
        None \<Rightarrow> Inl Undefined_Behaviour
      | Some e \<Rightarrow> Inr (map (\<lambda>n. if fst n = it then (it, (fst e, v)) else n) l))"

text \<open>\<^verbatim>\<open>l.erase(it)\<close>: the node is unlinked and destroyed.\<close>

definition list_erase :: "iterator \<Rightarrow> node list \<Rightarrow> halt + node list" where
  "list_erase it l =
     (case deref it l of
        None \<Rightarrow> Inl Undefined_Behaviour
      | Some e \<Rightarrow> Inr (filter (\<lambda>n. fst n \<noteq> it) l))"

text \<open>
  \<^verbatim>\<open>l.emplace_front(key, value)\<close> allocates a node; the allocator may return any address
  no live node has. The model takes the one above all live addresses.
\<close>

definition fresh_iterator :: "node list \<Rightarrow> iterator" where
  "fresh_iterator l = Suc (fold max (map fst l) 0)"

definition emplace_front :: "string \<Rightarrow> string \<Rightarrow> node list \<Rightarrow> node list" where
  "emplace_front key v l = (fresh_iterator l, (key, v)) # l"

subsection \<open>get, put, remove\<close>

text \<open>
  \<^verbatim>\<open>bool get(const std::string& key, std::string& value)\<close>. The out-parameter is an
  argument and a result: a miss returns it as it came.
\<close>

definition LRUCache_get ::
  "LRUCache \<Rightarrow> string \<Rightarrow> string \<Rightarrow> halt + (bool \<times> string \<times> LRUCache)" where
  "LRUCache_get c key v =
     (case map_find key (cache_items_map c) of
        None \<Rightarrow> Inr (False, v, c)
      | Some it \<Rightarrow>
          (case splice_begin it (cache_items_list c) of
             Inl h \<Rightarrow> Inl h
           | Inr l \<Rightarrow>
               (case deref it l of
                  None \<Rightarrow> Inl Undefined_Behaviour
                | Some e \<Rightarrow> Inr (True, snd e, c\<lparr>cache_items_list := l\<rparr>))))"

text \<open>The tail of \<^verbatim>\<open>put\<close>, after the eviction test: lines 61 and 62.\<close>

definition put_insert :: "LRUCache \<Rightarrow> string \<Rightarrow> string \<Rightarrow> LRUCache" where
  "put_insert c key v =
     (let l = emplace_front key v (cache_items_list c)
      in c\<lparr>cache_items_list := l,
            cache_items_map := map_assign key (fst (hd l)) (cache_items_map c)\<rparr>)"

definition LRUCache_put :: "LRUCache \<Rightarrow> string \<Rightarrow> string \<Rightarrow> halt + LRUCache" where
  "LRUCache_put c key v =
     (case map_find key (cache_items_map c) of
        Some it \<Rightarrow>
          (case assign_second it v (cache_items_list c) of
             Inl h \<Rightarrow> Inl h
           | Inr l \<Rightarrow>
               (case splice_begin it l of
                  Inl h \<Rightarrow> Inl h
                | Inr l' \<Rightarrow> Inr (c\<lparr>cache_items_list := l'\<rparr>)))
      | None \<Rightarrow>
          (if length (cache_items_map c) = capacity c then
             (case cache_items_list c of
                [] \<Rightarrow> Inl Undefined_Behaviour
              | _ # _ \<Rightarrow>
                  (let last = snd (last (cache_items_list c))
                   in Inr (put_insert
                        (c\<lparr>cache_items_map := map_erase (fst last) (cache_items_map c),
                            cache_items_list := butlast (cache_items_list c)\<rparr>) key v)))
           else Inr (put_insert c key v)))"

definition LRUCache_remove :: "LRUCache \<Rightarrow> string \<Rightarrow> halt + LRUCache" where
  "LRUCache_remove c key =
     (case map_find key (cache_items_map c) of
        None \<Rightarrow> Inr c
      | Some it \<Rightarrow>
          (case list_erase it (cache_items_list c) of
             Inl h \<Rightarrow> Inl h
           | Inr l \<Rightarrow>
               Inr (c\<lparr>cache_items_list := l,
                      cache_items_map := map_erase key (cache_items_map c)\<rparr>)))"

subsection \<open>What a caller can observe, and the representation invariant\<close>

text \<open>The entries from most to least recently used, and the number of them.\<close>

definition entries :: "LRUCache \<Rightarrow> (string \<times> string) list" where
  "entries c = map snd (cache_items_list c)"

definition cache_size :: "LRUCache \<Rightarrow> nat" where
  "cache_size c = length (cache_items_map c)"

text \<open>
  List and index describe the same entries: node addresses are unique, index keys are
  unique, and the index holds exactly one pair (key, address) for each node.
\<close>

definition cache_inv :: "LRUCache \<Rightarrow> bool" where
  "cache_inv c \<longleftrightarrow>
     distinct (map fst (cache_items_list c)) \<and>
     distinct (map fst (cache_items_map c)) \<and>
     set (cache_items_map c) = (\<lambda>n. (fst (snd n), fst n)) ` set (cache_items_list c)"

subsection \<open>Sequences of calls on one cache\<close>

datatype cache_call = Put string string | Get string | Remove string

text \<open>A get is called with an empty string in the out-parameter, as the GET handler does.\<close>

fun call :: "LRUCache \<Rightarrow> cache_call \<Rightarrow> halt + LRUCache" where
  "call c (Put key v) = LRUCache_put c key v"
| "call c (Get key) =
     (case LRUCache_get c key [] of Inl h \<Rightarrow> Inl h | Inr r \<Rightarrow> Inr (snd (snd r)))"
| "call c (Remove key) = LRUCache_remove c key"

fun calls :: "LRUCache \<Rightarrow> cache_call list \<Rightarrow> halt + LRUCache" where
  "calls c [] = Inr c"
| "calls c (x # xs) = (case call c x of Inl h \<Rightarrow> Inl h | Inr c' \<Rightarrow> calls c' xs)"



section \<open>The resource pool: classes ConnectionPool and PooledConnection\<close>

text \<open>
  A \<^verbatim>\<open>std::unique_ptr<pqxx::connection>\<close> owns one connection object; the model names
  the object by the number of the constructor's loop round that created it. \<^verbatim>\<open>pool_\<close> is
  a \<^verbatim>\<open>std::queue\<close>: a list, front first.
\<close>

type_synonym connection = nat

record ConnectionPool =
  pool :: "connection list"

text \<open>
  Trace of what a call did, in the order the source does it: pool traffic, the statements
  of a store transaction, cache calls.
\<close>

datatype statement = Upsert string string | Delete_Row string | Select string | Create_Table

datatype event =
    Acquire connection | Release connection
  | Begin | Exec statement | Commit | Abort
  | Cache_Get string | Cache_Put string string | Cache_Remove string

text \<open>What the server writes to its standard streams, one constructor per message.\<close>

datatype log_line =
    Connection_Error string
  | Table_Initialized
  | Initialization_Error string
  | Pool_Created nat
  | Listening nat
  | Fatal_Error string

text \<open>
  What \<^verbatim>\<open>std::make_unique<pqxx::connection>(conn_string)\<close> does in one round of the
  constructor's loop is the store's answer, a parameter of the model: an open connection,
  a connection that is not open, or an exception with its \<^verbatim>\<open>what()\<close>.
\<close>

datatype connect_result = Opened | Not_Open | Connect_Threw string

text \<open>
  The constructor's loop, rounds \<open>0 .. pool_size - 1\<close>: a round that fails writes its
  message to \<^verbatim>\<open>std::cerr\<close> and pushes nothing.
\<close>

primrec establish ::
  "(nat \<Rightarrow> connect_result) \<Rightarrow> nat \<Rightarrow> connection list \<times> log_line list" where
  "establish connect 0 = ([], [])"
| "establish connect (Suc i) =
     (case connect i of
        Opened \<Rightarrow> (fst (establish connect i) @ [i], snd (establish connect i))
      | Not_Open \<Rightarrow>
          (fst (establish connect i),
           snd (establish connect i) @ [Connection_Error ''Failed to open DB connection for pool''])
      | Connect_Threw what \<Rightarrow>
          (fst (establish connect i), snd (establish connect i) @ [Connection_Error what]))"

definition new_ConnectionPool ::
  "nat \<Rightarrow> (nat \<Rightarrow> connect_result) \<Rightarrow> ConnectionPool \<times> log_line list" where
  "new_ConnectionPool pool_size connect =
     (\<lparr>pool = fst (establish connect pool_size)\<rparr>, snd (establish connect pool_size))"

text \<open>
  \<^verbatim>\<open>get()\<close> waits on the condition variable until the queue is not empty. Seen from one
  caller with nobody else to release a connection, an empty queue means it never returns.
\<close>

definition ConnectionPool_get :: "ConnectionPool \<Rightarrow> halt + (connection \<times> ConnectionPool)" where
  "ConnectionPool_get p =
     (case pool p of
        [] \<Rightarrow> Inl Blocked_Forever
      | conn # rest \<Rightarrow> Inr (conn, p\<lparr>pool := rest\<rparr>))"

definition ConnectionPool_release :: "ConnectionPool \<Rightarrow> connection \<Rightarrow> ConnectionPool" where
  "ConnectionPool_release p conn = p\<lparr>pool := pool p @ [conn]\<rparr>"

text \<open>
  \<^verbatim>\<open>PooledConnection\<close> holds the pointer it took from the pool; the destructor gives it
  back unless the pointer is null.
\<close>

record PooledConnection =
  conn :: "connection option"

definition new_PooledConnection ::
  "ConnectionPool \<Rightarrow> halt + (PooledConnection \<times> ConnectionPool \<times> event list)" where
  "new_PooledConnection p =
     (case ConnectionPool_get p of
        Inl h \<Rightarrow> Inl h
      | Inr (c, p') \<Rightarrow> Inr (\<lparr>conn = Some c\<rparr>, p', [Acquire c]))"

definition delete_PooledConnection ::
  "PooledConnection \<Rightarrow> ConnectionPool \<Rightarrow> ConnectionPool \<times> event list" where
  "delete_PooledConnection pc p =
     (case conn pc of
        None \<Rightarrow> (p, [])
      | Some c \<Rightarrow> (ConnectionPool_release p c, [Release c]))"

subsection \<open>The pool shared by several requests\<close>

text \<open>
  Each call of \<^verbatim>\<open>get\<close> and \<^verbatim>\<open>release\<close> runs under the pool's mutex, so the pool
  moves in steps: a request constructs a \<^verbatim>\<open>PooledConnection\<close> (possible only when the
  queue is not empty; otherwise the request waits), or a live \<^verbatim>\<open>PooledConnection\<close> is
  destroyed. \<open>holders\<close> are the live ones.
\<close>

record pool_state =
  shared :: ConnectionPool
  holders :: "PooledConnection list"

inductive pool_step :: "pool_state \<Rightarrow> pool_state \<Rightarrow> bool" where
  construct:
    "new_PooledConnection (shared s) = Inr (pc, p', tr) \<Longrightarrow>
     pool_step s \<lparr>shared = p', holders = pc # holders s\<rparr>"
| destroy:
    "pc \<in> set (holders s) \<Longrightarrow>
     pool_step s \<lparr>shared = fst (delete_PooledConnection pc (shared s)),
                  holders = remove1 pc (holders s)\<rparr>"

inductive pool_reach :: "ConnectionPool \<Rightarrow> pool_state \<Rightarrow> bool" where
  start: "pool_reach p \<lparr>shared = p, holders = []\<rparr>"
| step: "pool_reach p s \<Longrightarrow> pool_step s s' \<Longrightarrow> pool_reach p s'"

code_pred pool_step .

code_pred pool_reach .

definition available :: "pool_state \<Rightarrow> nat" where
  "available s = length (pool (shared s))"

definition checked_out :: "pool_state \<Rightarrow> nat" where
  "checked_out s = length (holders s)"

text \<open>The connections a trace acquired and released, in order.\<close>

fun acquired :: "event list \<Rightarrow> connection list" where
  "acquired [] = []"
| "acquired (Acquire c # tr) = c # acquired tr"
| "acquired (e # tr) = acquired tr"

fun released :: "event list \<Rightarrow> connection list" where
  "released [] = []"
| "released (Release c # tr) = c # released tr"
| "released (e # tr) = released tr"

fun is_cache_event :: "event \<Rightarrow> bool" where
  "is_cache_event (Cache_Get key) = True"
| "is_cache_event (Cache_Put key v) = True"
| "is_cache_event (Cache_Remove key) = True"
| "is_cache_event e = False"

section \<open>The persistent store\<close>

text \<open>
  Modelled from the spec: the store and its driver (PostgreSQL behind \<^verbatim>\<open>pqxx\<close>) are
  outside the repository. The table \<^verbatim>\<open>key_value\<close> holds at most one row per key; PUT's
  statement inserts the row or overwrites its value, DELETE's removes it, GET's selects
  it. A transaction that raises leaves the table as it was. Whether a transaction raises,
  where, and with which \<^verbatim>\<open>what()\<close>, is a parameter of every request.
\<close>

type_synonym table = "string \<Rightarrow> string option"

datatype fault = No_Fault | Fault_Begin string | Fault_Exec string | Fault_Commit string

fun exec :: "statement \<Rightarrow> table \<Rightarrow> table \<times> string option" where
  "exec (Upsert key v) t = (t(key \<mapsto> v), None)"
| "exec (Delete_Row key) t = (t(key := None), None)"
| "exec (Select key) t = (t, t key)"
| "exec Create_Table t = (t, None)"

text \<open>
  \<^verbatim>\<open>pqxx::work txn(conn.get()); txn.exec(sql); txn.commit();\<close> Left: the exception's
  \<^verbatim>\<open>what()\<close>; right: the row selected, if any.
\<close>

fun transaction ::
  "fault \<Rightarrow> statement \<Rightarrow> table \<Rightarrow> (string + string option) \<times> table \<times> event list" where
  "transaction (Fault_Begin what) st t = (Inl what, t, [])"
| "transaction (Fault_Exec what) st t = (Inl what, t, [Begin, Abort])"
| "transaction (Fault_Commit what) st t = (Inl what, t, [Begin, Exec st, Abort])"
| "transaction No_Fault st t = (Inr (snd (exec st t)), fst (exec st t), [Begin, Exec st, Commit])"

section \<open>The request orchestrator: class ServerApp\<close>

definition CACHE_CAPACITY :: nat where
  "CACHE_CAPACITY = 1024"

definition DB_POOL_SIZE :: nat where
  "DB_POOL_SIZE = 64"

record ServerApp =
  cache :: LRUCache
  db_pool :: ConnectionPool

text \<open>The server together with the table it talks to.\<close>

record world =
  server :: ServerApp
  key_value :: table

text \<open>
  Modelled from the spec: the router (\<^verbatim>\<open>cpp-httplib\<close>) is outside the repository. It
  hands a handler the key, the body and a response; a response whose status the handler
  does not set is sent with status 200 (section 6 of the spec).
\<close>

record Response =
  status :: int
  body :: string
  content_type :: string

definition ok_response :: Response where
  "ok_response = \<lparr>status = 200, body = [], content_type = []\<rparr>"

definition set_content :: "string \<Rightarrow> string \<Rightarrow> Response \<Rightarrow> Response" where
  "set_content b ct res = res\<lparr>body := b, content_type := ct\<rparr>"

text \<open>
  The catch block of every handler, reached after the stack has unwound: the transaction
  is gone and the \<^verbatim>\<open>PooledConnection\<close> has been destroyed.
\<close>

definition database_error :: "string \<Rightarrow> Response \<Rightarrow> Response" where
  "database_error what res =
     set_content (''Database error: '' @ what) ''text/plain'' (res\<lparr>status := 500\<rparr>)"

text \<open>\<^verbatim>\<open>svr_.Put("/kv/(.+)", ...)\<close>\<close>

definition handle_put ::
  "fault \<Rightarrow> string \<Rightarrow> string \<Rightarrow> Response \<Rightarrow> world \<Rightarrow> halt + (Response \<times> world \<times> event list)" where
  "handle_put f key v res w =
     (case new_PooledConnection (db_pool (server w)) of
        Inl h \<Rightarrow> Inl h
      | Inr (pc, p1, tr1) \<Rightarrow>
          (case transaction f (Upsert key v) (key_value w) of
             (Inl what, t, tr2) \<Rightarrow>
               Inr (database_error what res,
                    \<lparr>server = (server w)\<lparr>db_pool := fst (delete_PooledConnection pc p1)\<rparr>,
                     key_value = t\<rparr>,
                    tr1 @ tr2 @ snd (delete_PooledConnection pc p1))
           | (Inr row, t, tr2) \<Rightarrow>
               (case LRUCache_put (cache (server w)) key v of
                  Inl h \<Rightarrow> Inl h
                | Inr c \<Rightarrow>
                    Inr (set_content ''OK'' ''text/plain'' res,
                         \<lparr>server = \<lparr>cache = c, db_pool = fst (delete_PooledConnection pc p1)\<rparr>,
                          key_value = t\<rparr>,
                         tr1 @ tr2 @ [Cache_Put key v] @ snd (delete_PooledConnection pc p1)))))"

text \<open>\<^verbatim>\<open>svr_.Get("/kv/(.+)", ...)\<close>\<close>

definition handle_get ::
  "fault \<Rightarrow> string \<Rightarrow> Response \<Rightarrow> world \<Rightarrow> halt + (Response \<times> world \<times> event list)" where
  "handle_get f key res w =
     (case LRUCache_get (cache (server w)) key [] of
        Inl h \<Rightarrow> Inl h
      | Inr (True, v, c) \<Rightarrow>
          Inr (set_content v ''text/plain'' res, w\<lparr>server := (server w)\<lparr>cache := c\<rparr>\<rparr>,
               [Cache_Get key])
      | Inr (False, v, c) \<Rightarrow>
          (case new_PooledConnection (db_pool (server w)) of
             Inl h \<Rightarrow> Inl h
           | Inr (pc, p1, tr1) \<Rightarrow>
               (case transaction f (Select key) (key_value w) of
                  (Inl what, t, tr2) \<Rightarrow>
                    Inr (database_error what res,
                         \<lparr>server = \<lparr>cache = c, db_pool = fst (delete_PooledConnection pc p1)\<rparr>,
                          key_value = t\<rparr>,
                         [Cache_Get key] @ tr1 @ tr2 @ snd (delete_PooledConnection pc p1))
                | (Inr None, t, tr2) \<Rightarrow>
                    Inr (set_content ''Not Found'' ''text/plain'' (res\<lparr>status := 404\<rparr>),
                         \<lparr>server = \<lparr>cache = c, db_pool = fst (delete_PooledConnection pc p1)\<rparr>,
                          key_value = t\<rparr>,
                         [Cache_Get key] @ tr1 @ tr2 @ snd (delete_PooledConnection pc p1))
                | (Inr (Some found), t, tr2) \<Rightarrow>
                    (case LRUCache_put c key found of
                       Inl h \<Rightarrow> Inl h
                     | Inr c' \<Rightarrow>
                         Inr (set_content found ''text/plain'' res,
                              \<lparr>server = \<lparr>cache = c', db_pool = fst (delete_PooledConnection pc p1)\<rparr>,
                               key_value = t\<rparr>,
                              [Cache_Get key] @ tr1 @ tr2 @ [Cache_Put key found]
                                @ snd (delete_PooledConnection pc p1))))))"

text \<open>\<^verbatim>\<open>svr_.Delete("/kv/(.+)", ...)\<close>\<close>

definition handle_delete ::
  "fault \<Rightarrow> string \<Rightarrow> Response \<Rightarrow> world \<Rightarrow> halt + (Response \<times> world \<times> event list)" where
  "handle_delete f key res w =
     (case new_PooledConnection (db_pool (server w)) of
        Inl h \<Rightarrow> Inl h
      | Inr (pc, p1, tr1) \<Rightarrow>
          (case transaction f (Delete_Row key) (key_value w) of
             (Inl what, t, tr2) \<Rightarrow>
               Inr (database_error what res,
                    \<lparr>server = (server w)\<lparr>db_pool := fst (delete_PooledConnection pc p1)\<rparr>,
                     key_value = t\<rparr>,
                    tr1 @ tr2 @ snd (delete_PooledConnection pc p1))
           | (Inr row, t, tr2) \<Rightarrow>
               (case LRUCache_remove (cache (server w)) key of
                  Inl h \<Rightarrow> Inl h
                | Inr c \<Rightarrow>
                    Inr (set_content ''OK'' ''text/plain'' res,
                         \<lparr>server = \<lparr>cache = c, db_pool = fst (delete_PooledConnection pc p1)\<rparr>,
                          key_value = t\<rparr>,
                         tr1 @ tr2 @ [Cache_Remove key] @ snd (delete_PooledConnection pc p1)))))"

text \<open>One request, as the router delivers it.\<close>

datatype request = PUT string string | GET string | DELETE string

fun serve :: "fault \<Rightarrow> request \<Rightarrow> world \<Rightarrow> halt + (Response \<times> world \<times> event list)" where
  "serve f (PUT key v) w = handle_put f key v ok_response w"
| "serve f (GET key) w = handle_get f key ok_response w"
| "serve f (DELETE key) w = handle_delete f key ok_response w"

text \<open>
  What the claims about requests assume of the world a request meets: the cache satisfies
  its invariant within a capacity above zero, and the pool has a connection to give. Startup
  establishes this and every request keeps it (\<open>main_world_inv\<close>, \<open>serve_world_inv\<close>
  below).
\<close>

definition world_inv :: "world \<Rightarrow> bool" where
  "world_inv w \<longleftrightarrow>
     cache_inv (cache (server w)) \<and> 0 < capacity (cache (server w)) \<and>
     cache_size (cache (server w)) \<le> capacity (cache (server w)) \<and>
     pool (db_pool (server w)) \<noteq> []"

subsection \<open>Startup\<close>

text \<open>
  \<^verbatim>\<open>initialize_database\<close>: left, the exception it rethrows; right, the pool after the
  \<^verbatim>\<open>PooledConnection\<close> is gone.
\<close>

definition initialize_database ::
  "fault \<Rightarrow> ConnectionPool \<Rightarrow> table \<Rightarrow>
   halt + ((string + ConnectionPool) \<times> table \<times> log_line list \<times> event list)" where
  "initialize_database f p t =
     (case new_PooledConnection p of
        Inl h \<Rightarrow> Inl h
      | Inr (pc, p1, tr1) \<Rightarrow>
          (case transaction f Create_Table t of
             (Inl what, t', tr2) \<Rightarrow>
               Inr (Inl what, t', [Initialization_Error what],
                    tr1 @ tr2 @ snd (delete_PooledConnection pc p1))
           | (Inr row, t', tr2) \<Rightarrow>
               Inr (Inr (fst (delete_PooledConnection pc p1)), t', [Table_Initialized],
                    tr1 @ tr2 @ snd (delete_PooledConnection pc p1))))"

text \<open>
  The constructor \<^verbatim>\<open>ServerApp()\<close>: members first, then the body. Left: the exception
  that leaves the constructor.
\<close>

definition new_ServerApp ::
  "(nat \<Rightarrow> connect_result) \<Rightarrow> fault \<Rightarrow> table \<Rightarrow> halt + ((string + world) \<times> log_line list)" where
  "new_ServerApp connect f t =
     (case initialize_database f (fst (new_ConnectionPool DB_POOL_SIZE connect)) t of
        Inl h \<Rightarrow> Inl h
      | Inr (Inl what, t', lg, tr) \<Rightarrow>
          Inr (Inl what, snd (new_ConnectionPool DB_POOL_SIZE connect) @ lg)
      | Inr (Inr p, t', lg, tr) \<Rightarrow>
          Inr (Inr \<lparr>server = \<lparr>cache = new_LRUCache CACHE_CAPACITY, db_pool = p\<rparr>, key_value = t'\<rparr>,
               snd (new_ConnectionPool DB_POOL_SIZE connect) @ lg @ [Pool_Created DB_POOL_SIZE]))"

text \<open>
  \<^verbatim>\<open>main\<close>: either the server reaches \<^verbatim>\<open>listen\<close> on port 8080 and serves the world it
  built, or main returns 1.
\<close>

datatype started = Serving world | Returned nat

definition main :: "(nat \<Rightarrow> connect_result) \<Rightarrow> fault \<Rightarrow> table \<Rightarrow> halt + (started \<times> log_line list)" where
  "main connect f t =
     (case new_ServerApp connect f t of
        Inl h \<Rightarrow> Inl h
      | Inr (Inl what, lg) \<Rightarrow> Inr (Returned 1, lg @ [Fatal_Error what])
      | Inr (Inr w, lg) \<Rightarrow> Inr (Serving w, lg @ [Listening 8080]))"

section \<open>Properties of the eviction cache\<close>

lemma map_find_None: "map_find key m = None \<longleftrightarrow> key \<notin> fst ` set m"
  by (simp add: map_find_def map_of_eq_None_iff)

subsection \<open>The invariant and what it gives\<close>

lemma fold_max_ge: "(a::nat) \<le> fold max xs a"
proof (induction xs arbitrary: a)
  case Nil show ?case by simp
next
  case (Cons x xs)
  have "a \<le> max x a" by simp
  also have "\<dots> \<le> fold max xs (max x a)" by (rule Cons.IH)
  finally show ?case by simp
qed

lemma fold_max_mem: "x \<in> set xs \<Longrightarrow> (x::nat) \<le> fold max xs a"
proof (induction xs arbitrary: a)
  case Nil then show ?case by simp
next
  case (Cons y ys)
  show ?case
  proof (cases "x = y")
    case True
    have "x \<le> max y a" using True by simp
    also have "\<dots> \<le> fold max ys (max y a)" by (rule fold_max_ge)
    finally show ?thesis by simp
  next
    case False
    with Cons.prems have "x \<in> set ys" by simp
    then show ?thesis using Cons.IH by simp
  qed
qed

lemma fresh_iterator_new: "n \<in> set l \<Longrightarrow> fst n \<noteq> fresh_iterator l"
proof -
  assume "n \<in> set l"
  then have "fst n \<in> set (map fst l)" by simp
  then have "fst n \<le> fold max (map fst l) 0" by (rule fold_max_mem)
  then show ?thesis by (simp add: fresh_iterator_def)
qed

lemma cache_inv_new: "cache_inv (new_LRUCache n)"
  by (simp add: cache_inv_def new_LRUCache_def)

lemma inv_find_Some:
  assumes "cache_inv c" "map_find key (cache_items_map c) = Some it"
  shows "\<exists>v. deref it (cache_items_list c) = Some (key, v)"
proof -
  from assms(2) have "(key, it) \<in> set (cache_items_map c)"
    by (simp add: map_find_def map_of_SomeD)
  with assms(1) obtain n where n: "n \<in> set (cache_items_list c)" "fst (snd n) = key" "fst n = it"
    by (auto simp: cache_inv_def)
  moreover from n have "n = (it, (key, snd (snd n)))" by (simp add: prod_eq_iff)
  ultimately have "(it, (key, snd (snd n))) \<in> set (cache_items_list c)"
    by simp
  with assms(1) have "map_of (cache_items_list c) it = Some (key, snd (snd n))"
    by (simp add: cache_inv_def)
  then show ?thesis by (auto simp: deref_def)
qed

lemma inv_node_indexed:
  assumes "cache_inv c" "n \<in> set (cache_items_list c)"
  shows "map_find (fst (snd n)) (cache_items_map c) = Some (fst n)"
proof -
  from assms have "(fst (snd n), fst n) \<in> set (cache_items_map c)"
    by (auto simp: cache_inv_def)
  with assms(1) show ?thesis by (simp add: cache_inv_def map_find_def)
qed

lemma inv_key_iff:
  assumes "cache_inv c" "n \<in> set (cache_items_list c)" "map_find key (cache_items_map c) = Some it"
  shows "fst n = it \<longleftrightarrow> fst (snd n) = key"
proof
  assume "fst n = it"
  from inv_find_Some [OF assms(1,3)] obtain v where "map_of (cache_items_list c) it = Some (key, v)"
    by (auto simp: deref_def)
  then have "(it, (key, v)) \<in> set (cache_items_list c)" by (rule map_of_SomeD)
  moreover have "(fst n, snd n) \<in> set (cache_items_list c)" using assms(2) by simp
  moreover have "distinct (map fst (cache_items_list c))" using assms(1) by (simp add: cache_inv_def)
  ultimately have "snd n = (key, v)" using \<open>fst n = it\<close>
    by (simp add: eq_key_imp_eq_value)
  then show "fst (snd n) = key" by simp
next
  assume "fst (snd n) = key"
  with inv_node_indexed [OF assms(1,2)] assms(3) show "fst n = it" by simp
qed

lemma inv_length:
  assumes "cache_inv c"
  shows "length (cache_items_map c) = length (cache_items_list c)"
proof -
  let ?f = "\<lambda>n::node. (fst (snd n), fst n)"
  from assms have d: "distinct (map fst (cache_items_list c))" "distinct (map fst (cache_items_map c))"
    and s: "set (cache_items_map c) = ?f ` set (cache_items_list c)"
    by (simp_all add: cache_inv_def)
  have "inj_on ?f (set (cache_items_list c))"
  proof (rule inj_onI)
    fix x y assume "x \<in> set (cache_items_list c)" "y \<in> set (cache_items_list c)" "?f x = ?f y"
    then have "fst x = fst y" by simp
    moreover have "inj_on fst (set (cache_items_list c))" using d(1) by (simp add: distinct_map)
    ultimately show "x = y" using \<open>x \<in> set (cache_items_list c)\<close> \<open>y \<in> set (cache_items_list c)\<close>
      by (simp add: inj_on_def)
  qed
  then have "card (?f ` set (cache_items_list c)) = card (set (cache_items_list c))"
    by (rule card_image)
  moreover have "distinct (cache_items_list c)" "distinct (cache_items_map c)"
    using d by (simp_all add: distinct_map)
  ultimately show ?thesis using s by (simp add: distinct_card [symmetric])
qed

lemma inv_find_None:
  assumes "cache_inv c"
  shows "map_find key (cache_items_map c) = None \<longleftrightarrow> key \<notin> fst ` set (entries c)"
proof -
  have "fst ` set (cache_items_map c) = fst ` set (entries c)"
    using assms by (simp add: cache_inv_def entries_def image_image)
  then show ?thesis by (simp add: map_find_None)
qed


lemma inv_keys_inj:
  assumes "cache_inv c"
  shows "inj_on (\<lambda>n. fst (snd n)) (set (cache_items_list c))"
proof (rule inj_onI)
  fix x y
  assume x: "x \<in> set (cache_items_list c)" and y: "y \<in> set (cache_items_list c)"
    and k: "fst (snd x) = fst (snd y)"
  from inv_node_indexed [OF assms x] inv_node_indexed [OF assms y] k
  have a: "fst x = fst y" by simp
  have "inj_on fst (set (cache_items_list c))"
    using assms by (simp add: cache_inv_def distinct_map)
  with a x y show "x = y" by (simp add: inj_on_def)
qed

lemma inv_keys_distinct:
  assumes "cache_inv c"
  shows "distinct (map fst (entries c))"
proof -
  have "distinct (cache_items_list c)"
    using assms by (simp add: cache_inv_def distinct_map)
  with inv_keys_inj [OF assms] have "distinct (map (\<lambda>n. fst (snd n)) (cache_items_list c))"
    by (simp add: distinct_map)
  then show ?thesis by (simp add: entries_def comp_def)
qed

lemma inv_size: "cache_inv c \<Longrightarrow> cache_size c = length (entries c)"
  by (simp add: cache_size_def entries_def inv_length)

lemma inv_lookup:
  assumes "cache_inv c" "map_find key (cache_items_map c) = Some it"
    "deref it (cache_items_list c) = Some e"
  shows "fst e = key \<and> map_of (entries c) key = Some (snd e)"
proof -
  from inv_find_Some [OF assms(1,2)] assms(3) obtain x where e: "e = (key, x)" by auto
  from assms(3) have "(it, e) \<in> set (cache_items_list c)"
    by (simp add: deref_def map_of_SomeD)
  then have "snd (it, e) \<in> set (entries c)" unfolding entries_def set_map by (rule imageI)
  then have "(key, x) \<in> set (entries c)" using e by simp
  with inv_keys_distinct [OF assms(1)] have "map_of (entries c) key = Some x" by simp
  with e show ?thesis by simp
qed

lemma inv_filter_entries:
  assumes "cache_inv c" "map_find key (cache_items_map c) = Some it"
  shows "map snd (filter (\<lambda>n. fst n \<noteq> it) (cache_items_list c))
         = filter (\<lambda>e. fst e \<noteq> key) (entries c)"
proof -
  have "filter (\<lambda>n. fst n \<noteq> it) (cache_items_list c)
        = filter (\<lambda>n. fst (snd n) \<noteq> key) (cache_items_list c)"
    by (rule filter_cong [OF refl]) (simp add: inv_key_iff [OF assms(1) _ assms(2)])
  then show ?thesis by (simp add: entries_def filter_map comp_def)
qed

lemma set_splice:
  fixes l :: "node list"
  assumes "distinct (map fst l)" "map_of l it = Some e"
  shows "set ((it, e) # filter (\<lambda>n. fst n \<noteq> it) l) = set l"
proof (rule set_eqI)
  fix n :: node
  have m: "(it, e) \<in> set l" using assms(2) by (rule map_of_SomeD)
  show "n \<in> set ((it, e) # filter (\<lambda>n. fst n \<noteq> it) l) \<longleftrightarrow> n \<in> set l"
  proof (cases "fst n = it")
    case False
    then show ?thesis by auto
  next
    case True
    have "n \<in> set l \<longleftrightarrow> n = (it, e)"
    proof
      assume "n \<in> set l"
      moreover have "n = (it, snd n)" using True by (simp add: prod_eq_iff)
      ultimately have "(it, snd n) \<in> set l" by simp
      with assms(1) m have "snd n = e" by (simp add: eq_key_imp_eq_value)
      with True show "n = (it, e)" by (simp add: prod_eq_iff)
    next
      assume "n = (it, e)"
      with m show "n \<in> set l" by simp
    qed
    with True show ?thesis by simp
  qed
qed

lemma inv_splice:
  assumes "cache_inv c" "deref it (cache_items_list c) = Some e" "fst e' = fst e"
  shows "cache_inv (c\<lparr>cache_items_list := (it, e') # filter (\<lambda>n. fst n \<noteq> it) (cache_items_list c)\<rparr>)"
proof -
  let ?f = "\<lambda>n::node. (fst (snd n), fst n)"
  let ?r = "filter (\<lambda>n. fst n \<noteq> it) (cache_items_list c)"
  from assms(1) have d: "distinct (map fst (cache_items_list c))" by (simp add: cache_inv_def)
  have "set ((it, e) # ?r) = set (cache_items_list c)"
    using d assms(2) unfolding deref_def by (rule set_splice)
  then have "?f ` set (cache_items_list c) = ?f ` set ((it, e) # ?r)" by simp
  also have "\<dots> = ?f ` set ((it, e') # ?r)" using assms(3) by simp
  finally have s: "?f ` set (cache_items_list c) = ?f ` set ((it, e') # ?r)" .
  have "distinct (map fst ?r)"
    using d by (rule distinct_map_filter)
  moreover have "it \<notin> fst ` set ?r" by auto
  ultimately have "distinct (map fst ((it, e') # ?r))"
    by simp
  with assms(1) s show ?thesis unfolding cache_inv_def by simp
qed

subsection \<open>get\<close>

lemma get_hit:
  assumes "cache_inv c" "map_of (entries c) key = Some x"
  shows "\<exists>c'. LRUCache_get c key v = Inr (True, x, c') \<and> cache_inv c' \<and>
           capacity c' = capacity c \<and> cache_size c' = cache_size c \<and>
           entries c' = (key, x) # filter (\<lambda>e. fst e \<noteq> key) (entries c)"
proof -
  from assms(2) have "map_of (entries c) key \<noteq> None" by simp
  then have "key \<in> fst ` set (entries c)" by (simp add: map_of_eq_None_iff)
  with inv_find_None [OF assms(1)] obtain it where it: "map_find key (cache_items_map c) = Some it"
    by (cases "map_find key (cache_items_map c)") auto
  from inv_find_Some [OF assms(1) it] obtain e where e: "deref it (cache_items_list c) = Some e"
    by auto
  from inv_lookup [OF assms(1) it e] assms(2) have ex: "e = (key, x)"
    by (simp add: prod_eq_iff)
  let ?l = "(it, e) # filter (\<lambda>n. fst n \<noteq> it) (cache_items_list c)"
  let ?c = "c\<lparr>cache_items_list := ?l\<rparr>"
  have g: "LRUCache_get c key v = Inr (True, x, ?c)"
    using it e ex by (simp add: LRUCache_get_def splice_begin_def deref_def)
  have "entries ?c = e # filter (\<lambda>e. fst e \<noteq> key) (entries c)"
    using inv_filter_entries [OF assms(1) it] by (simp add: entries_def)
  with g inv_splice [OF assms(1) e refl] ex show ?thesis by (simp add: cache_size_def)
qed

lemma get_miss:
  assumes "cache_inv c" "map_of (entries c) key = None"
  shows "LRUCache_get c key v = Inr (False, v, c)"
proof -
  from assms(2) have "key \<notin> fst ` set (entries c)" by (simp add: map_of_eq_None_iff)
  with inv_find_None [OF assms(1)] have "map_find key (cache_items_map c) = None" by simp
  then show ?thesis by (simp add: LRUCache_get_def)
qed


subsection \<open>put\<close>

lemma map_of_assign:
  fixes l :: "node list"
  shows "map_of l it = Some e \<Longrightarrow> map_of (map (\<lambda>n. if fst n = it then (it, y) else n) l) it = Some y"
  by (induction l) (auto split: if_splits)

lemma filter_assign:
  fixes l :: "node list"
  shows "filter (\<lambda>n. fst n \<noteq> it) (map (\<lambda>n. if fst n = it then (it, y) else n) l)
         = filter (\<lambda>n. fst n \<noteq> it) l"
  by (induction l) auto

lemma put_hit:
  assumes "cache_inv c" "key \<in> fst ` set (entries c)"
  shows "\<exists>c'. LRUCache_put c key v = Inr c' \<and> cache_inv c' \<and>
           capacity c' = capacity c \<and> cache_size c' = cache_size c \<and>
           entries c' = (key, v) # filter (\<lambda>e. fst e \<noteq> key) (entries c)"
proof -
  from assms(2) inv_find_None [OF assms(1)] obtain it where it: "map_find key (cache_items_map c) = Some it"
    by (cases "map_find key (cache_items_map c)") auto
  from inv_find_Some [OF assms(1) it] obtain x where e: "deref it (cache_items_list c) = Some (key, x)"
    by auto
  let ?l1 = "map (\<lambda>n. if fst n = it then (it, (key, v)) else n) (cache_items_list c)"
  let ?l = "(it, (key, v)) # filter (\<lambda>n. fst n \<noteq> it) (cache_items_list c)"
  let ?c = "c\<lparr>cache_items_list := ?l\<rparr>"
  have a: "assign_second it v (cache_items_list c) = Inr ?l1"
    using e by (simp add: assign_second_def)
  have "deref it ?l1 = Some (key, v)"
    using e unfolding deref_def by (rule map_of_assign)
  then have b: "splice_begin it ?l1 = Inr ?l"
    by (simp add: splice_begin_def filter_assign)
  have g: "LRUCache_put c key v = Inr ?c"
    using it a b by (simp add: LRUCache_put_def)
  have "entries ?c = (key, v) # filter (\<lambda>e. fst e \<noteq> key) (entries c)"
    using inv_filter_entries [OF assms(1) it] by (simp add: entries_def)
  moreover have "cache_inv ?c" using assms(1) e by (rule inv_splice) simp
  ultimately show ?thesis using g by (simp add: cache_size_def)
qed

lemma inv_put_insert:
  assumes "cache_inv c" "key \<notin> fst ` set (cache_items_map c)"
  shows "cache_inv (put_insert c key v)"
proof -
  let ?a = "fresh_iterator (cache_items_list c)"
  have f: "?a \<notin> fst ` set (cache_items_list c)"
  proof
    assume "?a \<in> fst ` set (cache_items_list c)"
    then obtain n where "n \<in> set (cache_items_list c)" "fst n = ?a" by auto
    with fresh_iterator_new [of n "cache_items_list c"] show False by simp
  qed
  have m: "filter (\<lambda>p. fst p \<noteq> key) (cache_items_map c) = cache_items_map c"
    using assms(2) by (auto simp: filter_id_conv)
  show ?thesis
    using assms f unfolding cache_inv_def put_insert_def emplace_front_def map_assign_def Let_def m
    by simp
qed

lemma entries_put_insert: "entries (put_insert c key v) = (key, v) # entries c"
  by (simp add: entries_def put_insert_def emplace_front_def Let_def)

lemma capacity_put_insert: "capacity (put_insert c key v) = capacity c"
  by (simp add: put_insert_def Let_def)

lemma inv_evict:
  assumes "cache_inv c" "cache_items_list c \<noteq> []"
  shows "cache_inv (c\<lparr>cache_items_map := map_erase (fst (snd (last (cache_items_list c)))) (cache_items_map c),
                      cache_items_list := butlast (cache_items_list c)\<rparr>)"
proof -
  let ?l = "cache_items_list c" and ?m = "cache_items_map c"
  let ?f = "\<lambda>n::node. (fst (snd n), fst n)"
  let ?k = "fst (snd (last ?l))"
  from assms(1) have d: "distinct (map fst ?l)" and dm: "distinct (map fst ?m)"
    and s: "set ?m = ?f ` set ?l"
    by (simp_all add: cache_inv_def)
  have dl: "distinct ?l" using d by (simp add: distinct_map)
  have l: "butlast ?l @ [last ?l] = ?l" using assms(2) by simp
  have "distinct (butlast ?l @ [last ?l])" using dl l by simp
  then have nl: "last ?l \<notin> set (butlast ?l)" by simp
  have sl: "set ?l = insert (last ?l) (set (butlast ?l))"
  proof -
    have "set ?l = set (butlast ?l @ [last ?l])" using l by simp
    then show ?thesis by simp
  qed
  have d1: "distinct (map fst (butlast ?l))"
    using d by (simp add: map_butlast distinct_butlast)
  have d2: "distinct (map fst (map_erase ?k ?m))"
    unfolding map_erase_def using dm by (rule distinct_map_filter)
  have "set (map_erase ?k ?m) = ?f ` set (butlast ?l)"
  proof (rule set_eqI)
    fix p
    show "p \<in> set (map_erase ?k ?m) \<longleftrightarrow> p \<in> ?f ` set (butlast ?l)"
    proof
      assume "p \<in> set (map_erase ?k ?m)"
      then have "p \<in> set ?m" "fst p \<noteq> ?k" by (simp_all add: map_erase_def)
      with s obtain n where n: "n \<in> set ?l" "p = ?f n" by auto
      with \<open>fst p \<noteq> ?k\<close> have "n \<noteq> last ?l" by auto
      with n(1) sl have "n \<in> set (butlast ?l)" by auto
      with n(2) show "p \<in> ?f ` set (butlast ?l)" by simp
    next
      assume "p \<in> ?f ` set (butlast ?l)"
      then obtain n where n: "n \<in> set (butlast ?l)" "p = ?f n" by auto
      then have nl': "n \<in> set ?l" using sl by simp
      have la: "last ?l \<in> set ?l" using assms(2) by simp
      have "fst (snd n) \<noteq> ?k"
      proof
        assume "fst (snd n) = ?k"
        with inv_keys_inj [OF assms(1)] nl' la have "n = last ?l" by (simp add: inj_on_def)
        with n(1) nl show False by simp
      qed
      moreover have "p \<in> set ?m" using s nl' n(2) by simp
      ultimately show "p \<in> set (map_erase ?k ?m)" using n(2) by (simp add: map_erase_def)
    qed
  qed
  with d1 d2 show ?thesis by (simp add: cache_inv_def)
qed

lemma put_new:
  assumes "cache_inv c" "0 < capacity c" "key \<notin> fst ` set (entries c)"
  shows "\<exists>c'. LRUCache_put c key v = Inr c' \<and> cache_inv c' \<and> capacity c' = capacity c \<and>
           entries c' = (key, v) # (if length (entries c) = capacity c then butlast (entries c)
                                     else entries c)"
proof -
  from assms(3) inv_find_None [OF assms(1)] have nf: "map_find key (cache_items_map c) = None"
    by simp
  then have nk: "key \<notin> fst ` set (cache_items_map c)" by (simp add: map_find_None)
  have len: "length (cache_items_map c) = length (entries c)"
    using inv_size [OF assms(1)] by (simp add: cache_size_def)
  show ?thesis
  proof (cases "length (entries c) = capacity c")
    case False
    then have "LRUCache_put c key v = Inr (put_insert c key v)"
      using nf len by (simp add: LRUCache_put_def)
    with False inv_put_insert [OF assms(1) nk] show ?thesis
      by (simp add: entries_put_insert capacity_put_insert)
  next
    case True
    with assms(2) have ne: "cache_items_list c \<noteq> []" by (auto simp: entries_def)
    let ?e = "c\<lparr>cache_items_map := map_erase (fst (snd (last (cache_items_list c)))) (cache_items_map c),
                  cache_items_list := butlast (cache_items_list c)\<rparr>"
    have p: "LRUCache_put c key v = Inr (put_insert ?e key v)"
      using nf len True ne by (simp add: LRUCache_put_def Let_def split: list.splits)
    have "key \<notin> fst ` set (cache_items_map ?e)" using nk by (auto simp: map_erase_def)
    with inv_evict [OF assms(1) ne] have "cache_inv (put_insert ?e key v)" by (rule inv_put_insert)
    moreover have "entries ?e = butlast (entries c)" by (simp add: entries_def map_butlast)
    ultimately show ?thesis using p True
      by (simp add: entries_put_insert capacity_put_insert)
  qed
qed

lemma put_ok:
  assumes "cache_inv c" "0 < capacity c"
  shows "\<exists>c'. LRUCache_put c key v = Inr c' \<and> cache_inv c' \<and> capacity c' = capacity c \<and>
           entries c' = (key, v) #
             (if key \<in> fst ` set (entries c) then filter (\<lambda>e. fst e \<noteq> key) (entries c)
              else if length (entries c) = capacity c then butlast (entries c)
              else entries c)"
proof (cases "key \<in> fst ` set (entries c)")
  case True
  with put_hit [OF assms(1) True, of v] show ?thesis by auto
next
  case False
  with put_new [OF assms False, of v] show ?thesis by auto
qed

lemma put_size:
  assumes "cache_inv c" "0 < capacity c" "cache_size c \<le> capacity c"
    "LRUCache_put c key v = Inr c'"
  shows "cache_size c' \<le> capacity c'"
proof -
  from put_ok [OF assms(1,2), of key v] assms(4)
  have i: "cache_inv c'" and cap: "capacity c' = capacity c" and
    e: "entries c' = (key, v) #
             (if key \<in> fst ` set (entries c) then filter (\<lambda>e. fst e \<noteq> key) (entries c)
              else if length (entries c) = capacity c then butlast (entries c)
              else entries c)"
    by auto
  have le: "length (entries c) \<le> capacity c" using assms(1,3) by (simp add: inv_size)
  have "length (entries c') \<le> capacity c"
  proof (cases "key \<in> fst ` set (entries c)")
    case True
    then obtain x where "x \<in> set (entries c)" "\<not> fst x \<noteq> key" by auto
    then have "length (filter (\<lambda>e. fst e \<noteq> key) (entries c)) < length (entries c)"
      by (rule length_filter_less)
    with True e le show ?thesis by simp
  next
    case False
    with e le assms(2) show ?thesis by auto
  qed
  with i cap show ?thesis by (simp add: inv_size)
qed

subsection \<open>remove\<close>

lemma remove_ok:
  assumes "cache_inv c"
  shows "\<exists>c'. LRUCache_remove c key = Inr c' \<and> cache_inv c' \<and> capacity c' = capacity c \<and>
           entries c' = filter (\<lambda>e. fst e \<noteq> key) (entries c)"
proof (cases "map_find key (cache_items_map c)")
  case None
  then have "key \<notin> fst ` set (entries c)" using inv_find_None [OF assms] by simp
  then have "filter (\<lambda>e. fst e \<noteq> key) (entries c) = entries c"
    by (auto simp: filter_id_conv)
  with None assms show ?thesis by (simp add: LRUCache_remove_def)
next
  case (Some it)
  from inv_find_Some [OF assms Some] obtain x where e: "deref it (cache_items_list c) = Some (key, x)"
    by auto
  let ?l = "cache_items_list c" and ?m = "cache_items_map c"
  let ?f = "\<lambda>n::node. (fst (snd n), fst n)"
  let ?c = "c\<lparr>cache_items_list := filter (\<lambda>n. fst n \<noteq> it) ?l, cache_items_map := map_erase key ?m\<rparr>"
  have r: "LRUCache_remove c key = Inr ?c"
    using Some e by (simp add: LRUCache_remove_def list_erase_def)
  from assms have d: "distinct (map fst ?l)" and dm: "distinct (map fst ?m)"
    and s: "set ?m = ?f ` set ?l"
    by (simp_all add: cache_inv_def)
  have "set (map_erase key ?m) = ?f ` set (filter (\<lambda>n. fst n \<noteq> it) ?l)"
  proof (rule set_eqI)
    fix p
    show "p \<in> set (map_erase key ?m) \<longleftrightarrow> p \<in> ?f ` set (filter (\<lambda>n. fst n \<noteq> it) ?l)"
    proof
      assume "p \<in> set (map_erase key ?m)"
      then have "p \<in> set ?m" "fst p \<noteq> key" by (simp_all add: map_erase_def)
      with s obtain n where n: "n \<in> set ?l" "p = ?f n" by auto
      with \<open>fst p \<noteq> key\<close> have "fst (snd n) \<noteq> key" by simp
      with inv_key_iff [OF assms n(1) Some] have "fst n \<noteq> it" by simp
      with n(1) have "n \<in> set (filter (\<lambda>n. fst n \<noteq> it) ?l)" by simp
      then have "?f n \<in> ?f ` set (filter (\<lambda>n. fst n \<noteq> it) ?l)" by (rule imageI)
      with n(2) show "p \<in> ?f ` set (filter (\<lambda>n. fst n \<noteq> it) ?l)" by simp
    next
      assume "p \<in> ?f ` set (filter (\<lambda>n. fst n \<noteq> it) ?l)"
      then obtain n where n: "n \<in> set ?l" "fst n \<noteq> it" "p = ?f n" by auto
      with inv_key_iff [OF assms n(1) Some] have "fst p \<noteq> key" by simp
      moreover have "p \<in> set ?m" using s n(1,3) by simp
      ultimately show "p \<in> set (map_erase key ?m)" by (simp add: map_erase_def)
    qed
  qed
  moreover have "distinct (map fst (filter (\<lambda>n. fst n \<noteq> it) ?l))"
    using d by (rule distinct_map_filter)
  moreover have "distinct (map fst (map_erase key ?m))"
    unfolding map_erase_def using dm by (rule distinct_map_filter)
  ultimately have "cache_inv ?c" by (simp add: cache_inv_def)
  moreover have "entries ?c = filter (\<lambda>e. fst e \<noteq> key) (entries c)"
    using inv_filter_entries [OF assms Some] by (simp add: entries_def)
  ultimately show ?thesis using r by simp
qed

lemma remove_size:
  assumes "cache_inv c" "cache_size c \<le> capacity c" "LRUCache_remove c key = Inr c'"
  shows "cache_size c' \<le> capacity c'"
proof -
  from remove_ok [OF assms(1), of key] assms(3)
  have i: "cache_inv c'" and cap: "capacity c' = capacity c" and
    e: "entries c' = filter (\<lambda>e. fst e \<noteq> key) (entries c)"
    by auto
  have "length (entries c') \<le> length (entries c)" unfolding e by (rule length_filter_le)
  with assms(1,2) i cap show ?thesis by (simp add: inv_size)
qed

subsection \<open>Sequences of calls\<close>

lemma call_ok:
  assumes "cache_inv c" "0 < capacity c" "cache_size c \<le> capacity c"
  shows "\<exists>c'. call c x = Inr c' \<and> cache_inv c' \<and> capacity c' = capacity c \<and>
           cache_size c' \<le> capacity c'"
proof (cases x)
  case (Put key v)
  from put_ok [OF assms(1,2), of key v] obtain c' where
    c': "LRUCache_put c key v = Inr c'" "cache_inv c'" "capacity c' = capacity c" by blast
  from put_size [OF assms c'(1)] c' Put show ?thesis by simp
next
  case (Get key)
  show ?thesis
  proof (cases "map_of (entries c) key")
    case None
    from get_miss [OF assms(1) None, of "[]"] Get assms show ?thesis by simp
  next
    case (Some x)
    from get_hit [OF assms(1) Some, of "[]"] Get assms(3) show ?thesis by auto
  qed
next
  case (Remove key)
  from remove_ok [OF assms(1), of key] obtain c' where
    c': "LRUCache_remove c key = Inr c'" "cache_inv c'" "capacity c' = capacity c" by blast
  from remove_size [OF assms(1,3) c'(1)] c' Remove show ?thesis by simp
qed

lemma calls_ok:
  assumes "cache_inv c" "0 < capacity c" "cache_size c \<le> capacity c"
  shows "\<exists>c'. calls c xs = Inr c' \<and> cache_inv c' \<and> capacity c' = capacity c \<and>
           cache_size c' \<le> capacity c'"
  using assms
proof (induction xs arbitrary: c)
  case Nil
  then show ?case by simp
next
  case (Cons x xs)
  from call_ok [OF Cons.prems, of x] obtain c1 where
    c1: "call c x = Inr c1" "cache_inv c1" "capacity c1 = capacity c" "cache_size c1 \<le> capacity c1"
    by blast
  from Cons.IH [OF c1(2) _ c1(4)] Cons.prems(2) c1(3) obtain c' where
    "calls c1 xs = Inr c'" "cache_inv c'" "capacity c' = capacity c1" "cache_size c' \<le> capacity c'"
    by auto
  with c1 show ?case by simp
qed












section \<open>The claims about the cache\<close>

text \<open>
  C2. A cache constructed with a capacity above zero, taken through any finite sequence
  of put, get and remove calls: every call returns, and after each of them (after the
  first \<open>i\<close> calls, for every \<open>i\<close>) the index and the list hold the same number of
  entries, at most the capacity.
\<close>

theorem capacity_invariant:
  assumes "0 < n"
  shows "\<exists>c. calls (new_LRUCache n) (take i xs) = Inr c \<and> capacity c = n \<and>
           cache_size c \<le> n \<and> length (entries c) = cache_size c"
proof -
  have "cache_inv (new_LRUCache n)" by (rule cache_inv_new)
  moreover have "0 < capacity (new_LRUCache n)" using assms by (simp add: new_LRUCache_def)
  moreover have "cache_size (new_LRUCache n) \<le> capacity (new_LRUCache n)"
    by (simp add: new_LRUCache_def cache_size_def)
  ultimately obtain c where "calls (new_LRUCache n) (take i xs) = Inr c" "cache_inv c"
    "capacity c = capacity (new_LRUCache n)" "cache_size c \<le> capacity c"
    using calls_ok by blast
  then show ?thesis by (auto simp: new_LRUCache_def inv_size)
qed

theorem capacity_invariant_witness:
  "(0::nat) < 2 \<and>
   (\<exists>c. calls (new_LRUCache 2)
          (take 4 [Put ''a'' ''1'', Put ''b'' ''2'', Get ''a'', Put ''c'' ''3'', Remove ''a'']) = Inr c \<and>
        capacity c = 2 \<and> cache_size c \<le> 2 \<and> length (entries c) = cache_size c)"
  using capacity_invariant [of 2 4 "[Put ''a'' ''1'', Put ''b'' ''2'', Get ''a'', Put ''c'' ''3'', Remove ''a'']"]
  by simp



text \<open>
  C10. A get for a key the cache does not hold (the index has no such key; or, in a cache
  that satisfies the invariant, no entry of the list has it) reports not-found and returns
  the cache as it was: same entries, same values, same recency order, same index.
\<close>

theorem get_miss_unchanged:
  "(key \<notin> fst ` set (cache_items_map c) \<longrightarrow> LRUCache_get c key v = Inr (False, v, c))
   \<and> (cache_inv c \<and> key \<notin> fst ` set (entries c) \<longrightarrow> LRUCache_get c key v = Inr (False, v, c))"
proof -
  have a: "LRUCache_get c key v = Inr (False, v, c)" if "key \<notin> fst ` set (cache_items_map c)"
    using that by (simp add: LRUCache_get_def map_find_None [THEN iffD2])
  have b: "LRUCache_get c key v = Inr (False, v, c)"
    if "cache_inv c" "key \<notin> fst ` set (entries c)"
  proof -
    from that(2) have "map_of (entries c) key = None" by (simp add: map_of_eq_None_iff)
    with that(1) show ?thesis by (rule get_miss)
  qed
  from a b show ?thesis by blast
qed

theorem get_miss_unchanged_witness:
  "''z'' \<notin> fst ` set [(''b'', 2::nat), (''a'', 1)] \<and>
   cache_inv \<lparr>capacity = 2, cache_items_list = [(2, ''b'', ''2''), (1, ''a'', ''1'')],
              cache_items_map = [(''b'', 2), (''a'', 1)]\<rparr> \<and>
   ''z'' \<notin> fst ` set [(''b'', ''2''), (''a'', ''1'')] \<and>
   LRUCache_get \<lparr>capacity = 2, cache_items_list = [(2, ''b'', ''2''), (1, ''a'', ''1'')],
                  cache_items_map = [(''b'', 2), (''a'', 1)]\<rparr> ''z'' []
     = Inr (False, [], \<lparr>capacity = 2, cache_items_list = [(2, ''b'', ''2''), (1, ''a'', ''1'')],
                        cache_items_map = [(''b'', 2), (''a'', 1)]\<rparr>)"
proof -
  let ?c = "\<lparr>capacity = 2, cache_items_list = [(2, ''b'', ''2''), (1, ''a'', ''1'')],
              cache_items_map = [(''b'', 2), (''a'', 1)]\<rparr>"
  have h: "''z'' \<notin> fst ` set (cache_items_map ?c)" "cache_inv ?c"
    "''z'' \<notin> fst ` set (entries ?c)"
    by (simp_all add: cache_inv_def entries_def)
  from get_miss_unchanged [of "''z''" ?c "[]"] h show ?thesis
    by (simp add: entries_def)
qed

section \<open>Properties of the request handlers\<close>

lemma new_PooledConnection_Cons:
  "pool p = c # rest \<Longrightarrow>
   new_PooledConnection p = Inr (\<lparr>conn = Some c\<rparr>, \<lparr>pool = rest\<rparr>, [Acquire c])"
  by (simp add: new_PooledConnection_def ConnectionPool_get_def)

lemma new_PooledConnection_Nil:
  "pool p = [] \<Longrightarrow> new_PooledConnection p = Inl Blocked_Forever"
  by (simp add: new_PooledConnection_def ConnectionPool_get_def)

lemma delete_PooledConnection_Some:
  "delete_PooledConnection \<lparr>conn = Some c\<rparr> p = (\<lparr>pool = pool p @ [c]\<rparr>, [Release c])"
  by (simp add: delete_PooledConnection_def ConnectionPool_release_def)

lemma transaction_fault:
  assumes "f \<noteq> No_Fault"
  shows "\<exists>what tr. transaction f st t = (Inl what, t, tr) \<and> set tr \<subseteq> {Begin, Exec st, Abort} \<and>
           Commit \<notin> set tr"
  using assms by (cases f) auto

lemma handle_put_fault:
  assumes "pool (db_pool (server w)) = c # rest" "f \<noteq> No_Fault"
  shows "\<exists>what tr. transaction f (Upsert key v) (key_value w) = (Inl what, key_value w, tr) \<and>
           handle_put f key v res w =
             Inr (database_error what res,
                  \<lparr>server = \<lparr>cache = cache (server w), db_pool = \<lparr>pool = rest @ [c]\<rparr>\<rparr>,
                   key_value = key_value w\<rparr>,
                  Acquire c # tr @ [Release c])"
proof -
  from transaction_fault [OF assms(2)] obtain what tr where
    t: "transaction f (Upsert key v) (key_value w) = (Inl what, key_value w, tr)" by blast
  then show ?thesis
    using assms(1)
    by (simp add: handle_put_def new_PooledConnection_Cons delete_PooledConnection_Some)
qed

lemma handle_put_commit:
  assumes "pool (db_pool (server w)) = c # rest" "LRUCache_put (cache (server w)) key v = Inr c'"
  shows "handle_put No_Fault key v res w =
             Inr (set_content ''OK'' ''text/plain'' res,
                  \<lparr>server = \<lparr>cache = c', db_pool = \<lparr>pool = rest @ [c]\<rparr>\<rparr>,
                   key_value = (key_value w)(key \<mapsto> v)\<rparr>,
                  [Acquire c, Begin, Exec (Upsert key v), Commit, Cache_Put key v, Release c])"
  using assms
  by (simp add: handle_put_def new_PooledConnection_Cons delete_PooledConnection_Some)

lemma handle_delete_fault:
  assumes "pool (db_pool (server w)) = c # rest" "f \<noteq> No_Fault"
  shows "\<exists>what tr. transaction f (Delete_Row key) (key_value w) = (Inl what, key_value w, tr) \<and>
           handle_delete f key res w =
             Inr (database_error what res,
                  \<lparr>server = \<lparr>cache = cache (server w), db_pool = \<lparr>pool = rest @ [c]\<rparr>\<rparr>,
                   key_value = key_value w\<rparr>,
                  Acquire c # tr @ [Release c])"
proof -
  from transaction_fault [OF assms(2)] obtain what tr where
    t: "transaction f (Delete_Row key) (key_value w) = (Inl what, key_value w, tr)" by blast
  then show ?thesis
    using assms(1)
    by (simp add: handle_delete_def new_PooledConnection_Cons delete_PooledConnection_Some)
qed

lemma handle_delete_commit:
  assumes "pool (db_pool (server w)) = c # rest" "LRUCache_remove (cache (server w)) key = Inr c'"
  shows "handle_delete No_Fault key res w =
             Inr (set_content ''OK'' ''text/plain'' res,
                  \<lparr>server = \<lparr>cache = c', db_pool = \<lparr>pool = rest @ [c]\<rparr>\<rparr>,
                   key_value = (key_value w)(key := None)\<rparr>,
                  [Acquire c, Begin, Exec (Delete_Row key), Commit, Cache_Remove key, Release c])"
  using assms
  by (simp add: handle_delete_def new_PooledConnection_Cons delete_PooledConnection_Some)

lemma handle_get_hit:
  assumes "LRUCache_get (cache (server w)) key [] = Inr (True, v, c')"
  shows "handle_get f key res w =
           Inr (set_content v ''text/plain'' res, w\<lparr>server := (server w)\<lparr>cache := c'\<rparr>\<rparr>,
                [Cache_Get key])"
  using assms by (simp add: handle_get_def)

lemma handle_get_fault:
  assumes "LRUCache_get (cache (server w)) key [] = Inr (False, v0, c0)"
    "pool (db_pool (server w)) = c # rest" "f \<noteq> No_Fault"
  shows "\<exists>what tr. transaction f (Select key) (key_value w) = (Inl what, key_value w, tr) \<and>
           handle_get f key res w =
             Inr (database_error what res,
                  \<lparr>server = \<lparr>cache = c0, db_pool = \<lparr>pool = rest @ [c]\<rparr>\<rparr>,
                   key_value = key_value w\<rparr>,
                  Cache_Get key # Acquire c # tr @ [Release c])"
proof -
  from transaction_fault [OF assms(3)] obtain what tr where
    t: "transaction f (Select key) (key_value w) = (Inl what, key_value w, tr)" by blast
  then show ?thesis
    using assms(1,2)
    by (simp add: handle_get_def new_PooledConnection_Cons delete_PooledConnection_Some)
qed

lemma handle_get_absent:
  assumes "LRUCache_get (cache (server w)) key [] = Inr (False, v0, c0)"
    "pool (db_pool (server w)) = c # rest" "key_value w key = None"
  shows "handle_get No_Fault key res w =
             Inr (set_content ''Not Found'' ''text/plain'' (res\<lparr>status := 404\<rparr>),
                  \<lparr>server = \<lparr>cache = c0, db_pool = \<lparr>pool = rest @ [c]\<rparr>\<rparr>,
                   key_value = key_value w\<rparr>,
                  [Cache_Get key, Acquire c, Begin, Exec (Select key), Commit, Release c])"
  using assms
  by (simp add: handle_get_def new_PooledConnection_Cons delete_PooledConnection_Some)

lemma handle_get_stored:
  assumes "LRUCache_get (cache (server w)) key [] = Inr (False, v0, c0)"
    "pool (db_pool (server w)) = c # rest" "key_value w key = Some found"
    "LRUCache_put c0 key found = Inr c'"
  shows "handle_get No_Fault key res w =
             Inr (set_content found ''text/plain'' res,
                  \<lparr>server = \<lparr>cache = c', db_pool = \<lparr>pool = rest @ [c]\<rparr>\<rparr>,
                   key_value = key_value w\<rparr>,
                  [Cache_Get key, Acquire c, Begin, Exec (Select key), Commit, Cache_Put key found,
                   Release c])"
  using assms
  by (simp add: handle_get_def new_PooledConnection_Cons delete_PooledConnection_Some)


lemma put_returns_pool:
  assumes "handle_put f key v res w = Inr r"
  shows "pool (db_pool (server w)) \<noteq> []"
proof
  assume "pool (db_pool (server w)) = []"
  then have "handle_put f key v res w = Inl Blocked_Forever"
    by (simp add: handle_put_def new_PooledConnection_Nil)
  with assms show False by simp
qed

lemma delete_returns_pool:
  assumes "handle_delete f key res w = Inr r"
  shows "pool (db_pool (server w)) \<noteq> []"
proof
  assume "pool (db_pool (server w)) = []"
  then have "handle_delete f key res w = Inl Blocked_Forever"
    by (simp add: handle_delete_def new_PooledConnection_Nil)
  with assms show False by simp
qed

lemma status_simps:
  "status (database_error what res) = 500"
  "status (set_content b ct res) = status res"
  "body (set_content b ct res) = b"
  "status ok_response = 200"
  by (simp_all add: database_error_def set_content_def ok_response_def)

section \<open>Properties of the pool and of startup\<close>

lemma establish_fst: "fst (establish connect n) = filter (\<lambda>i. connect i = Opened) [0..<n]"
  by (induction n) (auto split: connect_result.splits)

lemma establish_snd:
  "snd (establish connect n) =
     map (\<lambda>i. case connect i of Connect_Threw what \<Rightarrow> Connection_Error what
                | _ \<Rightarrow> Connection_Error ''Failed to open DB connection for pool'')
       (filter (\<lambda>i. connect i \<noteq> Opened) [0..<n])"
  by (induction n) (auto split: connect_result.splits)

lemma establish_count:
  "length (fst (establish connect n)) + length (snd (establish connect n)) = n"
  by (induction n) (auto split: connect_result.splits)

lemma pool_step_conserves:
  assumes "pool_step s s'" "\<forall>h\<in>set (holders s). conn h \<noteq> None"
  shows "available s' + checked_out s' = available s + checked_out s \<and>
         (\<forall>h\<in>set (holders s'). conn h \<noteq> None)"
  using assms
proof (cases rule: pool_step.cases)
  case (construct pc p' tr)
  then obtain c rest where c: "pool (shared s) = c # rest"
    by (cases "pool (shared s)") (auto simp: new_PooledConnection_Nil)
  from construct(2) new_PooledConnection_Cons [OF c] have "pc = \<lparr>conn = Some c\<rparr>" "p' = \<lparr>pool = rest\<rparr>"
    by simp_all
  with construct(1) c assms(2) show ?thesis by (simp add: available_def checked_out_def)
next
  case (destroy pc)
  with assms(2) obtain c where c: "conn pc = Some c" by auto
  have "length (remove1 pc (holders s)) = length (holders s) - 1"
    using destroy(2) by (simp add: length_remove1)
  moreover have "0 < length (holders s)" using destroy(2) by (cases "holders s") auto
  moreover have "\<forall>h\<in>set (remove1 pc (holders s)). conn h \<noteq> None"
    using assms(2) by (auto dest: notin_set_remove1)
  ultimately show ?thesis using destroy(1) c
    by (simp add: available_def checked_out_def delete_PooledConnection_def
        ConnectionPool_release_def)
qed

lemma pool_reach_conserves:
  assumes "pool_reach p s"
  shows "available s + checked_out s = length (pool p) \<and> (\<forall>h\<in>set (holders s). conn h \<noteq> None)"
  using assms
proof (induction rule: pool_reach.induct)
  case (start p)
  show ?case by (simp add: available_def checked_out_def)
next
  case (step p s s')
  with pool_step_conserves [OF step.hyps(2)] show ?case by simp
qed

lemma acquired_aborted:
  assumes "set tr \<subseteq> {Begin, Exec st, Abort}"
  shows "acquired (tr @ tr') = acquired tr' \<and> released (tr @ tr') = released tr'"
  using assms by (induction tr) auto

lemma serve_balanced:
  assumes "pool (db_pool (server w)) \<noteq> []" "cache_inv (cache (server w))"
    "0 < capacity (cache (server w))"
  shows "\<exists>res w' tr. serve f rq w = Inr (res, w', tr) \<and> released tr = acquired tr \<and>
           length (acquired tr) \<le> 1 \<and>
           pool (db_pool (server w')) =
             (if acquired tr = [] then pool (db_pool (server w))
              else tl (pool (db_pool (server w))) @ [hd (pool (db_pool (server w)))])"
proof -
  from assms(1) obtain c rest where p: "pool (db_pool (server w)) = c # rest"
    by (cases "pool (db_pool (server w))") auto
  show ?thesis
  proof (cases rq)
    case (PUT key v)
    show ?thesis
    proof (cases "f = No_Fault")
      case True
      from put_ok [OF assms(2,3), of key v] obtain c' where
        "LRUCache_put (cache (server w)) key v = Inr c'" by blast
      from handle_put_commit [OF p this, of ok_response] True PUT p show ?thesis by simp
    next
      case False
      from handle_put_fault [OF p False, of key v ok_response]
        transaction_fault [OF False, of "Upsert key v" "key_value w"]
      obtain what tr where "set tr \<subseteq> {Begin, Exec (Upsert key v), Abort}"
        "handle_put f key v ok_response w =
             Inr (database_error what ok_response,
                  \<lparr>server = \<lparr>cache = cache (server w), db_pool = \<lparr>pool = rest @ [c]\<rparr>\<rparr>,
                   key_value = key_value w\<rparr>, Acquire c # tr @ [Release c])" by auto
      with acquired_aborted [OF this(1), of "[Release c]"] PUT p show ?thesis by simp
    qed
  next
    case (DELETE key)
    show ?thesis
    proof (cases "f = No_Fault")
      case True
      from remove_ok [OF assms(2), of key] obtain c' where
        "LRUCache_remove (cache (server w)) key = Inr c'" by blast
      from handle_delete_commit [OF p this, of ok_response] True DELETE p show ?thesis by simp
    next
      case False
      from handle_delete_fault [OF p False, of key ok_response]
        transaction_fault [OF False, of "Delete_Row key" "key_value w"]
      obtain what tr where "set tr \<subseteq> {Begin, Exec (Delete_Row key), Abort}"
        "handle_delete f key ok_response w =
             Inr (database_error what ok_response,
                  \<lparr>server = \<lparr>cache = cache (server w), db_pool = \<lparr>pool = rest @ [c]\<rparr>\<rparr>,
                   key_value = key_value w\<rparr>, Acquire c # tr @ [Release c])" by auto
      with acquired_aborted [OF this(1), of "[Release c]"] DELETE p show ?thesis by simp
    qed
  next
    case (GET key)
    show ?thesis
    proof (cases "map_of (entries (cache (server w))) key")
      case (Some x)
      from get_hit [OF assms(2) Some, of "[]"] obtain c' where
        "LRUCache_get (cache (server w)) key [] = Inr (True, x, c')" by blast
      from handle_get_hit [OF this, of f ok_response] GET show ?thesis by simp
    next
      case None
      from get_miss [OF assms(2) None, of "[]"] have
        g: "LRUCache_get (cache (server w)) key [] = Inr (False, [], cache (server w))" .
      show ?thesis
      proof (cases "f = No_Fault")
        case False
        from handle_get_fault [OF g p False, of ok_response]
          transaction_fault [OF False, of "Select key" "key_value w"]
        obtain what tr where "set tr \<subseteq> {Begin, Exec (Select key), Abort}"
          "handle_get f key ok_response w =
             Inr (database_error what ok_response,
                  \<lparr>server = \<lparr>cache = cache (server w), db_pool = \<lparr>pool = rest @ [c]\<rparr>\<rparr>,
                   key_value = key_value w\<rparr>, Cache_Get key # Acquire c # tr @ [Release c])" by auto
        with acquired_aborted [OF this(1), of "[Release c]"] GET p show ?thesis by simp
      next
        case True
        show ?thesis
        proof (cases "key_value w key")
          case None
          from handle_get_absent [OF g p None, of ok_response] True GET p show ?thesis by simp
        next
          case (Some found)
          from put_ok [OF assms(2,3), of key found] obtain c' where
            "LRUCache_put (cache (server w)) key found = Inr c'" by blast
          from handle_get_stored [OF g p Some this, of ok_response] True GET p show ?thesis by simp
        qed
      qed
    qed
  qed
qed

lemma initialize_database_commit:
  assumes "pool p = c # rest"
  shows "initialize_database No_Fault p t =
           Inr (Inr \<lparr>pool = rest @ [c]\<rparr>, t, [Table_Initialized],
                [Acquire c, Begin, Exec Create_Table, Commit, Release c])"
  using assms
  by (simp add: initialize_database_def new_PooledConnection_Cons delete_PooledConnection_Some)

lemma initialize_database_fault:
  assumes "pool p = c # rest" "f \<noteq> No_Fault"
  shows "\<exists>what tr. set tr \<subseteq> {Begin, Exec Create_Table, Abort} \<and>
           initialize_database f p t =
             Inr (Inl what, t, [Initialization_Error what], Acquire c # tr @ [Release c])"
proof -
  from transaction_fault [OF assms(2), of Create_Table t] obtain what tr where
    "transaction f Create_Table t = (Inl what, t, tr)" "set tr \<subseteq> {Begin, Exec Create_Table, Abort}"
    by blast
  then show ?thesis using assms(1)
    by (simp add: initialize_database_def new_PooledConnection_Cons delete_PooledConnection_Some)
qed

lemma initialize_database_what:
  assumes "pool p = c # rest" "f = Fault_Begin what \<or> f = Fault_Exec what \<or> f = Fault_Commit what"
  shows "\<exists>tr. initialize_database f p t =
           Inr (Inl what, t, [Initialization_Error what], Acquire c # tr @ [Release c])"
  using assms
  by (auto simp: initialize_database_def new_PooledConnection_Cons delete_PooledConnection_Some)

lemma initialize_database_blocked:
  "pool p = [] \<Longrightarrow> initialize_database f p t = Inl Blocked_Forever"
  by (simp add: initialize_database_def new_PooledConnection_Nil)

lemma new_ConnectionPool_pool:
  "pool (fst (new_ConnectionPool n connect)) = filter (\<lambda>i. connect i = Opened) [0..<n]"
  by (simp add: new_ConnectionPool_def establish_fst)

lemma establish_log_only_errors:
  "Listening port \<notin> set (snd (establish connect n))"
  by (induction n) (auto split: connect_result.splits)

lemma new_ServerApp_commit:
  assumes "fst (establish connect DB_POOL_SIZE) = c # rest"
  shows "new_ServerApp connect No_Fault t =
           Inr (Inr \<lparr>server = \<lparr>cache = new_LRUCache CACHE_CAPACITY, db_pool = \<lparr>pool = rest @ [c]\<rparr>\<rparr>,
                     key_value = t\<rparr>,
                snd (establish connect DB_POOL_SIZE) @ [Table_Initialized, Pool_Created DB_POOL_SIZE])"
proof -
  have "pool (fst (new_ConnectionPool DB_POOL_SIZE connect)) = c # rest"
    using assms by (simp add: new_ConnectionPool_def)
  from initialize_database_commit [OF this, of t] show ?thesis
    by (simp add: new_ServerApp_def new_ConnectionPool_def)
qed

lemma new_ServerApp_fault:
  assumes "fst (establish connect DB_POOL_SIZE) = c # rest" "f \<noteq> No_Fault"
  shows "\<exists>what. new_ServerApp connect f t =
           Inr (Inl what, snd (establish connect DB_POOL_SIZE) @ [Initialization_Error what])"
proof -
  have "pool (fst (new_ConnectionPool DB_POOL_SIZE connect)) = c # rest"
    using assms(1) by (simp add: new_ConnectionPool_def)
  from initialize_database_fault [OF this assms(2), of t] show ?thesis
    by (auto simp: new_ServerApp_def new_ConnectionPool_def)
qed

lemma establish_nonempty:
  assumes "i < n" "connect i = Opened"
  shows "fst (establish connect n) \<noteq> []"
proof -
  have "i \<in> set (filter (\<lambda>i. connect i = Opened) [0..<n])" using assms by simp
  then show ?thesis unfolding establish_fst by (cases "filter (\<lambda>i. connect i = Opened) [0..<n]") auto
qed

lemma establish_first_fails:
  "establish (\<lambda>i. if i = 0 then Not_Open else Opened) 64
     = (1 # [2..<64], [Connection_Error ''Failed to open DB connection for pool''])"
proof -
  let ?connect = "\<lambda>i::nat. if i = 0 then Not_Open else Opened"
  have u: "[0..<64] = 0 # 1 # [2..<64]"
    by (simp add: upt_conv_Cons)
  have "filter (\<lambda>j. ?connect j = Opened) [2..<64] = [2..<64]" by (simp add: filter_id_conv)
  then have a: "fst (establish ?connect 64) = 1 # [2..<64]"
    unfolding establish_fst u by simp
  have "filter (\<lambda>j. ?connect j \<noteq> Opened) [2..<64] = []" by (simp add: filter_empty_conv)
  then have b: "snd (establish ?connect 64)
                = [Connection_Error ''Failed to open DB connection for pool'']"
    unfolding establish_snd u by simp
  from a b show ?thesis by (simp add: prod_eq_iff)
qed

text \<open>
  With no connection established the pool is empty, and \<open>initialize_database\<close> waits
  for a connection that nobody can release: main neither returns nor listens.
\<close>

lemma main_blocked:
  assumes "\<forall>i<DB_POOL_SIZE. connect i \<noteq> Opened"
  shows "main connect f t = Inl Blocked_Forever"
proof -
  have "filter (\<lambda>i. connect i = Opened) [0..<DB_POOL_SIZE] = []"
    using assms by (simp add: filter_empty_conv)
  then have "pool (fst (new_ConnectionPool DB_POOL_SIZE connect)) = []"
    by (simp add: new_ConnectionPool_pool)
  from initialize_database_blocked [OF this] show ?thesis
    by (simp add: main_def new_ServerApp_def)
qed

subsection \<open>Every request of a sequential run returns\<close>

lemma serve_world_inv:
  assumes "world_inv w"
  shows "\<exists>res w' tr. serve f rq w = Inr (res, w', tr) \<and> world_inv w'"
proof -
  let ?c = "cache (server w)"
  from assms have i: "cache_inv ?c" and n: "0 < capacity ?c" and s: "cache_size ?c \<le> capacity ?c"
    and p: "pool (db_pool (server w)) \<noteq> []"
    by (simp_all add: world_inv_def)
  from serve_balanced [OF p i n, of f rq] obtain res w' tr where
    r: "serve f rq w = Inr (res, w', tr)"
      "pool (db_pool (server w')) =
             (if acquired tr = [] then pool (db_pool (server w))
              else tl (pool (db_pool (server w))) @ [hd (pool (db_pool (server w)))])" by blast
  from r(2) p have p': "pool (db_pool (server w')) \<noteq> []" by (simp split: if_splits)
  have "cache (server w') = ?c \<or> (\<exists>x. call ?c x = Inr (cache (server w')))"
  proof -
    from p obtain c rest where pc: "pool (db_pool (server w)) = c # rest"
      by (cases "pool (db_pool (server w))") auto
    show ?thesis
    proof (cases rq)
      case (PUT key v)
      show ?thesis
      proof (cases "f = No_Fault")
        case True
        from put_ok [OF i n, of key v] obtain c' where
          c': "LRUCache_put ?c key v = Inr c'" by blast
        from handle_put_commit [OF pc c', of ok_response] True PUT r(1)
        have "cache (server w') = c'" by auto
        with c' have "call ?c (Put key v) = Inr (cache (server w'))" by simp
        then show ?thesis by blast
      next
        case False
        from handle_put_fault [OF pc False, of key v ok_response] PUT r(1) show ?thesis by auto
      qed
    next
      case (DELETE key)
      show ?thesis
      proof (cases "f = No_Fault")
        case True
        from remove_ok [OF i, of key] obtain c' where
          c': "LRUCache_remove ?c key = Inr c'" by blast
        from handle_delete_commit [OF pc c', of ok_response] True DELETE r(1)
        have "cache (server w') = c'" by auto
        with c' have "call ?c (Remove key) = Inr (cache (server w'))" by simp
        then show ?thesis by blast
      next
        case False
        from handle_delete_fault [OF pc False, of key ok_response] DELETE r(1) show ?thesis by auto
      qed
    next
      case (GET key)
      show ?thesis
      proof (cases "map_of (entries ?c) key")
        case (Some x)
        from get_hit [OF i Some, of "[]"] obtain c' where
          c': "LRUCache_get ?c key [] = Inr (True, x, c')" by blast
        from handle_get_hit [OF c', of f ok_response] GET r(1) have "cache (server w') = c'" by auto
        with c' have "call ?c (Get key) = Inr (cache (server w'))" by simp
        then show ?thesis by blast
      next
        case None
        from get_miss [OF i None, of "[]"] have
          g: "LRUCache_get ?c key [] = Inr (False, [], ?c)" .
        show ?thesis
        proof (cases "f = No_Fault")
          case False
          from handle_get_fault [OF g pc False, of ok_response] GET r(1) show ?thesis by auto
        next
          case True
          show ?thesis
          proof (cases "key_value w key")
            case None
            from handle_get_absent [OF g pc None, of ok_response] True GET r(1) show ?thesis by auto
          next
            case (Some found)
            from put_ok [OF i n, of key found] obtain c' where
              c': "LRUCache_put ?c key found = Inr c'" by blast
            from handle_get_stored [OF g pc Some c', of ok_response] True GET r(1)
            have "cache (server w') = c'" by auto
            with c' have "call ?c (Put key found) = Inr (cache (server w'))" by simp
            then show ?thesis by blast
          qed
        qed
      qed
    qed
  qed
  then have "cache_inv (cache (server w')) \<and> 0 < capacity (cache (server w')) \<and>
     cache_size (cache (server w')) \<le> capacity (cache (server w'))"
  proof
    assume "cache (server w') = ?c"
    with i n s show ?thesis by simp
  next
    assume "\<exists>x. call ?c x = Inr (cache (server w'))"
    then obtain x where "call ?c x = Inr (cache (server w'))" by blast
    with call_ok [OF i n s, of x] n show ?thesis by auto
  qed
  with r(1) p' show ?thesis by (simp add: world_inv_def)
qed

lemma main_world_inv:
  assumes "main connect f t = Inr (Serving w, lg)"
  shows "world_inv w"
proof (cases "fst (establish connect DB_POOL_SIZE)")
  case Nil
  then have "pool (fst (new_ConnectionPool DB_POOL_SIZE connect)) = []"
    by (simp add: new_ConnectionPool_def)
  from initialize_database_blocked [OF this] assms show ?thesis
    by (simp add: main_def new_ServerApp_def)
next
  case (Cons c rest)
  show ?thesis
  proof (cases "f = No_Fault")
    case True
    from new_ServerApp_commit [OF Cons, of t] True assms
    have "w = \<lparr>server = \<lparr>cache = new_LRUCache CACHE_CAPACITY, db_pool = \<lparr>pool = rest @ [c]\<rparr>\<rparr>,
                     key_value = t\<rparr>"
      by (simp add: main_def)
    then show ?thesis
      by (simp add: world_inv_def cache_inv_new) (simp add: new_LRUCache_def CACHE_CAPACITY_def cache_size_def)
  next
    case False
    from new_ServerApp_fault [OF Cons False, of t] assms show ?thesis
      by (auto simp: main_def)
  qed
qed

text \<open>The definitions a run on concrete data unfolds.\<close>

lemmas run_defs =
  handle_put_def handle_get_def handle_delete_def new_PooledConnection_def
  ConnectionPool_get_def delete_PooledConnection_def ConnectionPool_release_def
  LRUCache_put_def LRUCache_get_def LRUCache_remove_def map_find_def map_erase_def
  map_assign_def deref_def splice_begin_def assign_second_def list_erase_def
  fresh_iterator_def emplace_front_def put_insert_def new_LRUCache_def CACHE_CAPACITY_def
  database_error_def set_content_def ok_response_def Let_def

section \<open>The claims about requests\<close>

text \<open>
  C3. PUT and DELETE write the store first and the cache afterwards. When the store
  transaction raises (at its start, at the statement or at the commit) the handler answers
  500, the cache is exactly what it was, and the trace holds neither a commit nor a cache
  call. When the transaction commits, the handler answers 200, the cache is the result of
  \<open>LRUCache_put\<close> (of \<open>LRUCache_remove\<close> for DELETE), and the commit stands before the
  cache call in the trace.
\<close>

theorem store_before_cache:
  "(pool (db_pool (server w)) \<noteq> [] \<and> f \<noteq> No_Fault \<longrightarrow>
      (\<exists>res' w' tr. serve f (PUT key v) w = Inr (res', w', tr) \<and> status res' = 500 \<and>
          cache (server w') = cache (server w) \<and> filter is_cache_event tr = [] \<and>
          Commit \<notin> set tr) \<and>
      (\<exists>res' w' tr. serve f (DELETE key) w = Inr (res', w', tr) \<and> status res' = 500 \<and>
          cache (server w') = cache (server w) \<and> filter is_cache_event tr = [] \<and>
          Commit \<notin> set tr))
   \<and> (pool (db_pool (server w)) \<noteq> [] \<and> cache_inv (cache (server w)) \<and>
        0 < capacity (cache (server w)) \<longrightarrow>
      (\<exists>res' w' tr c'. serve No_Fault (PUT key v) w = Inr (res', w', tr) \<and> status res' = 200 \<and>
          LRUCache_put (cache (server w)) key v = Inr c' \<and> cache (server w') = c' \<and>
          tr = [Acquire (hd (pool (db_pool (server w)))), Begin, Exec (Upsert key v), Commit,
                Cache_Put key v, Release (hd (pool (db_pool (server w))))]) \<and>
      (\<exists>res' w' tr c'. serve No_Fault (DELETE key) w = Inr (res', w', tr) \<and> status res' = 200 \<and>
          LRUCache_remove (cache (server w)) key = Inr c' \<and> cache (server w') = c' \<and>
          tr = [Acquire (hd (pool (db_pool (server w)))), Begin, Exec (Delete_Row key), Commit,
                Cache_Remove key, Release (hd (pool (db_pool (server w))))]))"
proof -
  have quiet: "filter is_cache_event tr = []" if "set tr \<subseteq> {Begin, Exec st, Abort}" for tr st
  proof -
    have "\<forall>e\<in>set tr. \<not> is_cache_event e" using that by auto
    then show ?thesis by (simp add: filter_empty_conv)
  qed
  have fail_put: "\<exists>res' w' tr. serve f (PUT key v) w = Inr (res', w', tr) \<and> status res' = 500 \<and>
          cache (server w') = cache (server w) \<and> filter is_cache_event tr = [] \<and> Commit \<notin> set tr"
    if p: "pool (db_pool (server w)) \<noteq> []" and f: "f \<noteq> No_Fault"
  proof -
    from p obtain c rest where c: "pool (db_pool (server w)) = c # rest"
      by (cases "pool (db_pool (server w))") auto
    from transaction_fault [OF f, of "Upsert key v" "key_value w"] obtain what tr where
      t: "transaction f (Upsert key v) (key_value w) = (Inl what, key_value w, tr)"
        "set tr \<subseteq> {Begin, Exec (Upsert key v), Abort}" "Commit \<notin> set tr" by blast
    from handle_put_fault [OF c f, of key v ok_response] t(1) have
      "serve f (PUT key v) w = Inr (database_error what ok_response,
                  \<lparr>server = \<lparr>cache = cache (server w), db_pool = \<lparr>pool = rest @ [c]\<rparr>\<rparr>,
                   key_value = key_value w\<rparr>, Acquire c # tr @ [Release c])" by simp
    with quiet [OF t(2)] t(3) show ?thesis by (simp add: status_simps)
  qed
  have fail_delete: "\<exists>res' w' tr. serve f (DELETE key) w = Inr (res', w', tr) \<and> status res' = 500 \<and>
          cache (server w') = cache (server w) \<and> filter is_cache_event tr = [] \<and> Commit \<notin> set tr"
    if p: "pool (db_pool (server w)) \<noteq> []" and f: "f \<noteq> No_Fault"
  proof -
    from p obtain c rest where c: "pool (db_pool (server w)) = c # rest"
      by (cases "pool (db_pool (server w))") auto
    from transaction_fault [OF f, of "Delete_Row key" "key_value w"] obtain what tr where
      t: "transaction f (Delete_Row key) (key_value w) = (Inl what, key_value w, tr)"
        "set tr \<subseteq> {Begin, Exec (Delete_Row key), Abort}" "Commit \<notin> set tr" by blast
    from handle_delete_fault [OF c f, of key ok_response] t(1) have
      "serve f (DELETE key) w = Inr (database_error what ok_response,
                  \<lparr>server = \<lparr>cache = cache (server w), db_pool = \<lparr>pool = rest @ [c]\<rparr>\<rparr>,
                   key_value = key_value w\<rparr>, Acquire c # tr @ [Release c])" by simp
    with quiet [OF t(2)] t(3) show ?thesis by (simp add: status_simps)
  qed
  have ok_put: "\<exists>res' w' tr c'. serve No_Fault (PUT key v) w = Inr (res', w', tr) \<and> status res' = 200 \<and>
          LRUCache_put (cache (server w)) key v = Inr c' \<and> cache (server w') = c' \<and>
          tr = [Acquire (hd (pool (db_pool (server w)))), Begin, Exec (Upsert key v), Commit,
                Cache_Put key v, Release (hd (pool (db_pool (server w))))]"
    if p: "pool (db_pool (server w)) \<noteq> []" and i: "cache_inv (cache (server w))"
      and n: "0 < capacity (cache (server w))"
  proof -
    from p obtain c rest where c: "pool (db_pool (server w)) = c # rest"
      by (cases "pool (db_pool (server w))") auto
    from put_ok [OF i n, of key v] obtain c' where
      c': "LRUCache_put (cache (server w)) key v = Inr c'" by blast
    from handle_put_commit [OF c c', of ok_response] c c' show ?thesis
      by (simp add: status_simps)
  qed
  have ok_delete: "\<exists>res' w' tr c'. serve No_Fault (DELETE key) w = Inr (res', w', tr) \<and> status res' = 200 \<and>
          LRUCache_remove (cache (server w)) key = Inr c' \<and> cache (server w') = c' \<and>
          tr = [Acquire (hd (pool (db_pool (server w)))), Begin, Exec (Delete_Row key), Commit,
                Cache_Remove key, Release (hd (pool (db_pool (server w))))]"
    if p: "pool (db_pool (server w)) \<noteq> []" and i: "cache_inv (cache (server w))"
  proof -
    from p obtain c rest where c: "pool (db_pool (server w)) = c # rest"
      by (cases "pool (db_pool (server w))") auto
    from remove_ok [OF i, of key] obtain c' where
      c': "LRUCache_remove (cache (server w)) key = Inr c'" by blast
    from handle_delete_commit [OF c c', of ok_response] c c' show ?thesis
      by (simp add: status_simps)
  qed
  from fail_put fail_delete ok_put ok_delete show ?thesis by blast
qed

text \<open>Both halves at a fresh server with two connections: a commit that raises, and none.\<close>

theorem store_before_cache_witness:
  "(\<exists>res' w' tr.
      serve (Fault_Commit ''connection lost'') (PUT ''k'' ''v'')
        \<lparr>server = \<lparr>cache = new_LRUCache CACHE_CAPACITY, db_pool = \<lparr>pool = [0, 1]\<rparr>\<rparr>,
         key_value = Map.empty\<rparr> = Inr (res', w', tr) \<and>
      status res' = 500 \<and> cache (server w') = new_LRUCache CACHE_CAPACITY \<and>
      filter is_cache_event tr = [] \<and> Commit \<notin> set tr)
   \<and> (\<exists>res' w' tr.
      serve (Fault_Commit ''connection lost'') (DELETE ''k'')
        \<lparr>server = \<lparr>cache = new_LRUCache CACHE_CAPACITY, db_pool = \<lparr>pool = [0, 1]\<rparr>\<rparr>,
         key_value = Map.empty\<rparr> = Inr (res', w', tr) \<and>
      status res' = 500 \<and> cache (server w') = new_LRUCache CACHE_CAPACITY \<and>
      filter is_cache_event tr = [] \<and> Commit \<notin> set tr)
   \<and> (\<exists>res' w' tr c'.
      serve No_Fault (PUT ''k'' ''v'')
        \<lparr>server = \<lparr>cache = new_LRUCache CACHE_CAPACITY, db_pool = \<lparr>pool = [0, 1]\<rparr>\<rparr>,
         key_value = Map.empty\<rparr> = Inr (res', w', tr) \<and>
      status res' = 200 \<and>
      LRUCache_put (new_LRUCache CACHE_CAPACITY) ''k'' ''v'' = Inr c' \<and> cache (server w') = c' \<and>
      tr = [Acquire 0, Begin, Exec (Upsert ''k'' ''v''), Commit, Cache_Put ''k'' ''v'', Release 0])
   \<and> (\<exists>res' w' tr c'.
      serve No_Fault (DELETE ''k'')
        \<lparr>server = \<lparr>cache = new_LRUCache CACHE_CAPACITY, db_pool = \<lparr>pool = [0, 1]\<rparr>\<rparr>,
         key_value = Map.empty\<rparr> = Inr (res', w', tr) \<and>
      status res' = 200 \<and>
      LRUCache_remove (new_LRUCache CACHE_CAPACITY) ''k'' = Inr c' \<and> cache (server w') = c' \<and>
      tr = [Acquire 0, Begin, Exec (Delete_Row ''k''), Commit, Cache_Remove ''k'', Release 0])"
proof -
  let ?w = "\<lparr>server = \<lparr>cache = new_LRUCache CACHE_CAPACITY, db_pool = \<lparr>pool = [0, 1]\<rparr>\<rparr>,
             key_value = Map.empty\<rparr>"
  have h: "pool (db_pool (server ?w)) \<noteq> []" "Fault_Commit ''connection lost'' \<noteq> No_Fault"
    "cache_inv (cache (server ?w))" "0 < capacity (cache (server ?w))"
    by (simp_all add: cache_inv_new) (simp add: new_LRUCache_def CACHE_CAPACITY_def)
  from store_before_cache [of ?w "Fault_Commit ''connection lost''" "''k''" "''v''"] h
  show ?thesis by simp
qed

text \<open>
  C5. A PUT of value \<open>v\<close> under key \<open>k\<close> that answers 200, followed at once by a GET
  of \<open>k\<close>: the GET answers 200 with body \<open>v\<close>, from the cache, whatever the store would
  do.
\<close>

theorem put_then_get:
  assumes "cache_inv (cache (server w))" "0 < capacity (cache (server w))"
    "serve f (PUT key v) w = Inr (res1, w1, tr1)" "status res1 = 200"
  shows "\<exists>res2 w2. serve f' (GET key) w1 = Inr (res2, w2, [Cache_Get key]) \<and>
           status res2 = 200 \<and> body res2 = v"
proof -
  from assms(3) have hp: "handle_put f key v ok_response w = Inr (res1, w1, tr1)" by simp
  from put_returns_pool [OF hp] obtain c rest where p: "pool (db_pool (server w)) = c # rest"
    by (cases "pool (db_pool (server w))") auto
  have f: "f = No_Fault"
  proof (rule ccontr)
    assume "f \<noteq> No_Fault"
    from handle_put_fault [OF p this, of key v ok_response] hp assms(4) show False
      by (auto simp: status_simps)
  qed
  from put_ok [OF assms(1,2), of key v] obtain c' where
    c': "LRUCache_put (cache (server w)) key v = Inr c'" "cache_inv c'"
      "map_of (entries c') key = Some v" by auto
  from handle_put_commit [OF p c'(1), of ok_response] hp f have "cache (server w1) = c'" by auto
  with get_hit [OF c'(2,3), of "[]"] obtain c2 where
    "LRUCache_get (cache (server w1)) key [] = Inr (True, v, c2)" by auto
  from handle_get_hit [OF this, of f' ok_response] show ?thesis by (simp add: status_simps)
qed

text \<open>A PUT on a fresh server, then a GET while the store is down.\<close>

theorem put_then_get_witness:
  "cache_inv (new_LRUCache CACHE_CAPACITY) \<and> 0 < capacity (new_LRUCache CACHE_CAPACITY) \<and>
   serve No_Fault (PUT ''k'' ''v'')
     \<lparr>server = \<lparr>cache = new_LRUCache CACHE_CAPACITY, db_pool = \<lparr>pool = [0, 1]\<rparr>\<rparr>,
      key_value = Map.empty\<rparr>
   = Inr (\<lparr>status = 200, body = ''OK'', content_type = ''text/plain''\<rparr>,
          \<lparr>server = \<lparr>cache = \<lparr>capacity = 1024, cache_items_list = [(1, ''k'', ''v'')],
                                cache_items_map = [(''k'', 1)]\<rparr>,
                      db_pool = \<lparr>pool = [1, 0]\<rparr>\<rparr>,
           key_value = [''k'' \<mapsto> ''v'']\<rparr>,
          [Acquire 0, Begin, Exec (Upsert ''k'' ''v''), Commit, Cache_Put ''k'' ''v'', Release 0]) \<and>
   (\<exists>res2 w2.
      serve (Fault_Begin ''store down'') (GET ''k'')
        \<lparr>server = \<lparr>cache = \<lparr>capacity = 1024, cache_items_list = [(1, ''k'', ''v'')],
                              cache_items_map = [(''k'', 1)]\<rparr>,
                    db_pool = \<lparr>pool = [1, 0]\<rparr>\<rparr>,
         key_value = [''k'' \<mapsto> ''v'']\<rparr>
      = Inr (res2, w2, [Cache_Get ''k'']) \<and> status res2 = 200 \<and> body res2 = ''v'')"
proof -
  let ?w = "\<lparr>server = \<lparr>cache = new_LRUCache CACHE_CAPACITY, db_pool = \<lparr>pool = [0, 1]\<rparr>\<rparr>,
             key_value = Map.empty\<rparr>"
  let ?r1 = "\<lparr>status = 200, body = ''OK'', content_type = ''text/plain''\<rparr>"
  let ?w1 = "\<lparr>server = \<lparr>cache = \<lparr>capacity = 1024, cache_items_list = [(1, ''k'', ''v'')],
                                cache_items_map = [(''k'', 1)]\<rparr>,
                      db_pool = \<lparr>pool = [1, 0]\<rparr>\<rparr>,
           key_value = [''k'' \<mapsto> ''v'']\<rparr>"
  let ?t1 = "[Acquire 0, Begin, Exec (Upsert ''k'' ''v''), Commit, Cache_Put ''k'' ''v'', Release 0]"
  have h1: "cache_inv (cache (server ?w))" by (simp add: cache_inv_new)
  have h2: "0 < capacity (cache (server ?w))" by (simp add: new_LRUCache_def CACHE_CAPACITY_def)
  have h3: "serve No_Fault (PUT ''k'' ''v'') ?w = Inr (?r1, ?w1, ?t1)" by (simp add: run_defs)
  have h4: "status ?r1 = 200" by simp
  from put_then_get [OF h1 h2 h3 h4, of "Fault_Begin ''store down''"] h1 h2 h3
  show ?thesis by simp
qed

text \<open>
  C6, as amended. A DELETE of key \<open>k\<close> that answers 200, followed at once by a GET of
  \<open>k\<close>, whether the cache held \<open>k\<close> before or not: the GET finds nothing in the cache,
  reads the store, and answers 404 "Not Found" when that read succeeds and 500 when it
  raises; in both cases the cache stays as the DELETE left it.
\<close>

theorem delete_then_get:
  assumes "cache_inv (cache (server w))"
    "serve f (DELETE key) w = Inr (res1, w1, tr1)" "status res1 = 200"
  shows "\<exists>res2 w2 tr2. serve f' (GET key) w1 = Inr (res2, w2, tr2) \<and>
           status res2 = (if f' = No_Fault then 404 else 500) \<and>
           (f' = No_Fault \<longrightarrow> body res2 = ''Not Found'') \<and>
           cache (server w2) = cache (server w1)"
proof -
  from assms(2) have hd: "handle_delete f key ok_response w = Inr (res1, w1, tr1)" by simp
  from delete_returns_pool [OF hd] obtain c rest where p: "pool (db_pool (server w)) = c # rest"
    by (cases "pool (db_pool (server w))") auto
  have f: "f = No_Fault"
  proof (rule ccontr)
    assume "f \<noteq> No_Fault"
    from handle_delete_fault [OF p this, of key ok_response] hd assms(3) show False
      by (auto simp: status_simps)
  qed
  from remove_ok [OF assms(1), of key] obtain c' where
    c': "LRUCache_remove (cache (server w)) key = Inr c'" "cache_inv c'"
      "entries c' = filter (\<lambda>e. fst e \<noteq> key) (entries (cache (server w)))" by auto
  from handle_delete_commit [OF p c'(1), of ok_response] hd f have
    w1: "w1 = \<lparr>server = \<lparr>cache = c', db_pool = \<lparr>pool = rest @ [c]\<rparr>\<rparr>,
               key_value = (key_value w)(key := None)\<rparr>" by auto
  have "key \<notin> fst ` set (entries c')" unfolding c'(3) by auto
  then have "map_of (entries c') key = None" by (simp add: map_of_eq_None_iff)
  from get_miss [OF c'(2) this, of "[]"] have
    g: "LRUCache_get (cache (server w1)) key [] = Inr (False, [], c')" by (simp add: w1)
  obtain c1 rest1 where p1: "pool (db_pool (server w1)) = c1 # rest1"
    by (cases "pool (db_pool (server w1))") (auto simp: w1)
  have t1: "key_value w1 key = None" by (simp add: w1)
  show ?thesis
  proof (cases "f' = No_Fault")
    case True
    from handle_get_absent [OF g p1 t1, of ok_response] True show ?thesis
      by (simp add: status_simps w1)
  next
    case False
    from handle_get_fault [OF g p1 False, of ok_response] False show ?thesis
      by (auto simp: status_simps w1)
  qed
qed

text \<open>A DELETE of a stored key, then a GET whose read succeeds.\<close>

theorem delete_then_get_witness:
  "cache_inv (new_LRUCache CACHE_CAPACITY) \<and>
   serve No_Fault (DELETE ''k'')
     \<lparr>server = \<lparr>cache = new_LRUCache CACHE_CAPACITY, db_pool = \<lparr>pool = [0, 1]\<rparr>\<rparr>,
      key_value = [''k'' \<mapsto> ''v'']\<rparr>
   = Inr (\<lparr>status = 200, body = ''OK'', content_type = ''text/plain''\<rparr>,
          \<lparr>server = \<lparr>cache = new_LRUCache CACHE_CAPACITY, db_pool = \<lparr>pool = [1, 0]\<rparr>\<rparr>,
           key_value = Map.empty\<rparr>,
          [Acquire 0, Begin, Exec (Delete_Row ''k''), Commit, Cache_Remove ''k'', Release 0]) \<and>
   (\<exists>res2 w2 tr2.
      serve No_Fault (GET ''k'')
        \<lparr>server = \<lparr>cache = new_LRUCache CACHE_CAPACITY, db_pool = \<lparr>pool = [1, 0]\<rparr>\<rparr>,
         key_value = Map.empty\<rparr>
      = Inr (res2, w2, tr2) \<and> status res2 = 404 \<and> body res2 = ''Not Found'' \<and>
      cache (server w2) = new_LRUCache CACHE_CAPACITY)"
proof -
  let ?w = "\<lparr>server = \<lparr>cache = new_LRUCache CACHE_CAPACITY, db_pool = \<lparr>pool = [0, 1]\<rparr>\<rparr>,
      key_value = [''k'' \<mapsto> ''v'']\<rparr>"
  let ?r1 = "\<lparr>status = 200, body = ''OK'', content_type = ''text/plain''\<rparr>"
  let ?w1 = "\<lparr>server = \<lparr>cache = new_LRUCache CACHE_CAPACITY, db_pool = \<lparr>pool = [1, 0]\<rparr>\<rparr>,
           key_value = Map.empty\<rparr>"
  let ?t1 = "[Acquire 0, Begin, Exec (Delete_Row ''k''), Commit, Cache_Remove ''k'', Release 0]"
  have h1: "cache_inv (cache (server ?w))" by (simp add: cache_inv_new)
  have h2: "serve No_Fault (DELETE ''k'') ?w = Inr (?r1, ?w1, ?t1)" by (simp add: run_defs)
  have h3: "status ?r1 = 200" by simp
  from delete_then_get [OF h1 h2 h3, of No_Fault] h1 h2
  show ?thesis by simp
qed

text \<open>
  C6 as stated fails: the DELETE answers 200, the store raises in the GET that follows,
  and the GET answers 500, not 404.
\<close>

theorem delete_then_get_store_error:
  "serve No_Fault (DELETE ''k'')
     \<lparr>server = \<lparr>cache = new_LRUCache CACHE_CAPACITY, db_pool = \<lparr>pool = [0, 1]\<rparr>\<rparr>,
      key_value = [''k'' \<mapsto> ''v'']\<rparr>
   = Inr (\<lparr>status = 200, body = ''OK'', content_type = ''text/plain''\<rparr>,
          \<lparr>server = \<lparr>cache = new_LRUCache CACHE_CAPACITY, db_pool = \<lparr>pool = [1, 0]\<rparr>\<rparr>,
           key_value = Map.empty\<rparr>,
          [Acquire 0, Begin, Exec (Delete_Row ''k''), Commit, Cache_Remove ''k'', Release 0]) \<and>
   serve (Fault_Exec ''connection lost'') (GET ''k'')
     \<lparr>server = \<lparr>cache = new_LRUCache CACHE_CAPACITY, db_pool = \<lparr>pool = [1, 0]\<rparr>\<rparr>,
      key_value = Map.empty\<rparr>
   = Inr (\<lparr>status = 500, body = ''Database error: connection lost'', content_type = ''text/plain''\<rparr>,
          \<lparr>server = \<lparr>cache = new_LRUCache CACHE_CAPACITY, db_pool = \<lparr>pool = [0, 1]\<rparr>\<rparr>,
           key_value = Map.empty\<rparr>,
          [Cache_Get ''k'', Acquire 1, Begin, Abort, Release 1])"
  by (simp add: run_defs)

text \<open>
  C7, as amended. A GET of a key the cache does not hold, with a connection to be had.
  When the store read succeeds and finds \<open>V\<close>, the GET answers 200 with \<open>V\<close> and the
  cache holds \<open>V\<close> under the key, so that a second GET answers 200 with \<open>V\<close> with a cache
  call as its whole trace, store and pool untouched. When the read succeeds and finds no
  row, the GET answers 404 and the cache is what it was. When the read raises, the GET
  answers 500 and the cache is what it was.
\<close>

theorem read_through:
  assumes "cache_inv (cache (server w))" "0 < capacity (cache (server w))"
    "key \<notin> fst ` set (entries (cache (server w)))" "pool (db_pool (server w)) \<noteq> []"
  shows "(key_value w key = Some V \<longrightarrow>
           (\<exists>res1 w1 tr1. serve No_Fault (GET key) w = Inr (res1, w1, tr1) \<and>
              status res1 = 200 \<and> body res1 = V \<and>
              map_of (entries (cache (server w1))) key = Some V \<and>
              (\<exists>res2 w2. serve f2 (GET key) w1 = Inr (res2, w2, [Cache_Get key]) \<and>
                  status res2 = 200 \<and> body res2 = V \<and>
                  key_value w2 = key_value w1 \<and> db_pool (server w2) = db_pool (server w1))))
       \<and> (key_value w key = None \<longrightarrow>
           (\<exists>res1 w1 tr1. serve No_Fault (GET key) w = Inr (res1, w1, tr1) \<and>
              status res1 = 404 \<and> body res1 = ''Not Found'' \<and>
              cache (server w1) = cache (server w) \<and> filter is_cache_event tr1 = [Cache_Get key]))
       \<and> (f \<noteq> No_Fault \<longrightarrow>
           (\<exists>res1 w1 tr1. serve f (GET key) w = Inr (res1, w1, tr1) \<and>
              status res1 = 500 \<and> cache (server w1) = cache (server w)))"
proof -
  let ?c = "cache (server w)"
  from assms(4) obtain c rest where p: "pool (db_pool (server w)) = c # rest"
    by (cases "pool (db_pool (server w))") auto
  from assms(3) have "map_of (entries ?c) key = None" by (simp add: map_of_eq_None_iff)
  from get_miss [OF assms(1) this, of "[]"] have g: "LRUCache_get ?c key [] = Inr (False, [], ?c)" .
  have a: "\<exists>res1 w1 tr1. serve No_Fault (GET key) w = Inr (res1, w1, tr1) \<and>
              status res1 = 200 \<and> body res1 = V \<and>
              map_of (entries (cache (server w1))) key = Some V \<and>
              (\<exists>res2 w2. serve f2 (GET key) w1 = Inr (res2, w2, [Cache_Get key]) \<and>
                  status res2 = 200 \<and> body res2 = V \<and>
                  key_value w2 = key_value w1 \<and> db_pool (server w2) = db_pool (server w1))"
    if s: "key_value w key = Some V"
  proof -
    from put_ok [OF assms(1,2), of key V] obtain c' where
      c': "LRUCache_put ?c key V = Inr c'" "cache_inv c'" "map_of (entries c') key = Some V" by auto
    let ?w1 = "\<lparr>server = \<lparr>cache = c', db_pool = \<lparr>pool = rest @ [c]\<rparr>\<rparr>, key_value = key_value w\<rparr>"
    from get_hit [OF c'(2,3), of "[]"] obtain c2 where
      "LRUCache_get (cache (server ?w1)) key [] = Inr (True, V, c2)" by auto
    from handle_get_hit [OF this, of f2 ok_response]
    have "\<exists>res2 w2. serve f2 (GET key) ?w1 = Inr (res2, w2, [Cache_Get key]) \<and>
                  status res2 = 200 \<and> body res2 = V \<and>
                  key_value w2 = key_value ?w1 \<and> db_pool (server w2) = db_pool (server ?w1)"
      by (simp add: status_simps)
    with handle_get_stored [OF g p s c'(1), of ok_response] c'(3) show ?thesis
      by (simp add: status_simps)
  qed
  have b: "\<exists>res1 w1 tr1. serve No_Fault (GET key) w = Inr (res1, w1, tr1) \<and>
              status res1 = 404 \<and> body res1 = ''Not Found'' \<and>
              cache (server w1) = cache (server w) \<and> filter is_cache_event tr1 = [Cache_Get key]"
    if "key_value w key = None"
    using handle_get_absent [OF g p that, of ok_response]
    by (simp add: status_simps set_content_def)
  have c: "\<exists>res1 w1 tr1. serve f (GET key) w = Inr (res1, w1, tr1) \<and>
              status res1 = 500 \<and> cache (server w1) = cache (server w)"
    if "f \<noteq> No_Fault"
    using handle_get_fault [OF g p that, of ok_response]
    by (auto simp: status_simps)
  from a b c show ?thesis by blast
qed

text \<open>A stored key, an absent key, and a read that raises, on a fresh server.\<close>

theorem read_through_witness:
  "cache_inv (new_LRUCache CACHE_CAPACITY) \<and> 0 < capacity (new_LRUCache CACHE_CAPACITY) \<and>
   (\<exists>res1 w1 tr1.
      serve No_Fault (GET ''k'')
        \<lparr>server = \<lparr>cache = new_LRUCache CACHE_CAPACITY, db_pool = \<lparr>pool = [0, 1]\<rparr>\<rparr>,
         key_value = [''k'' \<mapsto> ''v'']\<rparr> = Inr (res1, w1, tr1) \<and>
      status res1 = 200 \<and> body res1 = ''v'' \<and>
      map_of (entries (cache (server w1))) ''k'' = Some ''v'' \<and>
      (\<exists>res2 w2. serve (Fault_Begin ''store down'') (GET ''k'') w1 = Inr (res2, w2, [Cache_Get ''k'']) \<and>
          status res2 = 200 \<and> body res2 = ''v'' \<and>
          key_value w2 = key_value w1 \<and> db_pool (server w2) = db_pool (server w1)))
   \<and> (\<exists>res1 w1 tr1.
      serve No_Fault (GET ''z'')
        \<lparr>server = \<lparr>cache = new_LRUCache CACHE_CAPACITY, db_pool = \<lparr>pool = [0, 1]\<rparr>\<rparr>,
         key_value = [''k'' \<mapsto> ''v'']\<rparr> = Inr (res1, w1, tr1) \<and>
      status res1 = 404 \<and> body res1 = ''Not Found'' \<and>
      cache (server w1) = new_LRUCache CACHE_CAPACITY \<and>
      filter is_cache_event tr1 = [Cache_Get ''z''])
   \<and> (\<exists>res1 w1 tr1.
      serve (Fault_Exec ''connection lost'') (GET ''k'')
        \<lparr>server = \<lparr>cache = new_LRUCache CACHE_CAPACITY, db_pool = \<lparr>pool = [0, 1]\<rparr>\<rparr>,
         key_value = [''k'' \<mapsto> ''v'']\<rparr> = Inr (res1, w1, tr1) \<and>
      status res1 = 500 \<and> cache (server w1) = new_LRUCache CACHE_CAPACITY)"
proof -
  let ?w = "\<lparr>server = \<lparr>cache = new_LRUCache CACHE_CAPACITY, db_pool = \<lparr>pool = [0, 1]\<rparr>\<rparr>,
         key_value = [''k'' \<mapsto> ''v'']\<rparr>"
  have h1: "cache_inv (cache (server ?w))" by (simp add: cache_inv_new)
  have h2: "0 < capacity (cache (server ?w))" by (simp add: new_LRUCache_def CACHE_CAPACITY_def)
  have h3: "''k'' \<notin> fst ` set (entries (cache (server ?w)))"
    "''z'' \<notin> fst ` set (entries (cache (server ?w)))"
    by (simp_all add: entries_def new_LRUCache_def)
  have h4: "pool (db_pool (server ?w)) \<noteq> []" by simp
  from read_through [OF h1 h2 h3(1) h4, of "''v''" "Fault_Begin ''store down''" "Fault_Exec ''connection lost''"]
    read_through [OF h1 h2 h3(2) h4, of "''v''" "Fault_Begin ''store down''" No_Fault] h1 h2
  show ?thesis by simp
qed

text \<open>
  C7 as stated fails: the store holds a value for a key the cache does not hold, the read
  raises, and the GET answers 500 instead of the value.
\<close>

theorem read_through_store_error:
  "''k'' \<notin> fst ` set (entries (new_LRUCache CACHE_CAPACITY)) \<and>
   serve (Fault_Exec ''connection lost'') (GET ''k'')
     \<lparr>server = \<lparr>cache = new_LRUCache CACHE_CAPACITY, db_pool = \<lparr>pool = [0, 1]\<rparr>\<rparr>,
      key_value = [''k'' \<mapsto> ''v'']\<rparr>
   = Inr (\<lparr>status = 500, body = ''Database error: connection lost'', content_type = ''text/plain''\<rparr>,
          \<lparr>server = \<lparr>cache = new_LRUCache CACHE_CAPACITY, db_pool = \<lparr>pool = [1, 0]\<rparr>\<rparr>,
           key_value = [''k'' \<mapsto> ''v'']\<rparr>,
          [Cache_Get ''k'', Acquire 0, Begin, Abort, Release 0])"
  by (simp add: run_defs entries_def)

section \<open>The claims about the pool and about startup\<close>

text \<open>
  C4. The pool size is the number of connections the constructor put into the queue: one
  for each round of its loop that opened a connection, so the requested size when every
  round did. In every state the pool reaches by constructing and destroying
  \<open>PooledConnection\<close>s, idle plus checked-out connections are that many. And every
  request that returns, on every path (commit, or a store exception at any point),
  releases exactly the connection it acquired, or acquired none; so does
  \<open>initialize_database\<close>.
\<close>

theorem pool_conservation:
  "(pool_reach (fst (new_ConnectionPool pool_size connect)) s \<longrightarrow>
      available s + checked_out s = length (pool (fst (new_ConnectionPool pool_size connect))) \<and>
      available s + checked_out s = length (filter (\<lambda>i. connect i = Opened) [0..<pool_size]) \<and>
      ((\<forall>i<pool_size. connect i = Opened) \<longrightarrow> available s + checked_out s = pool_size))
   \<and> (pool (db_pool (server w)) \<noteq> [] \<and> cache_inv (cache (server w)) \<and>
        0 < capacity (cache (server w)) \<longrightarrow>
      (\<exists>res w' tr. serve f rq w = Inr (res, w', tr) \<and> released tr = acquired tr \<and>
           length (acquired tr) \<le> 1 \<and>
           pool (db_pool (server w')) =
             (if acquired tr = [] then pool (db_pool (server w))
              else tl (pool (db_pool (server w))) @ [hd (pool (db_pool (server w)))])))
   \<and> (pool p \<noteq> [] \<longrightarrow>
      (\<exists>r t' lg tr. initialize_database f p t = Inr (r, t', lg, tr) \<and>
           acquired tr = [hd (pool p)] \<and> released tr = [hd (pool p)]))"
proof -
  let ?p = "fst (new_ConnectionPool pool_size connect)"
  have a: "available s + checked_out s = length (pool ?p) \<and>
      available s + checked_out s = length (filter (\<lambda>i. connect i = Opened) [0..<pool_size]) \<and>
      ((\<forall>i<pool_size. connect i = Opened) \<longrightarrow> available s + checked_out s = pool_size)"
    if r: "pool_reach ?p s"
  proof -
    from pool_reach_conserves [OF r] have c: "available s + checked_out s = length (pool ?p)"
      by simp
    have "filter (\<lambda>i. connect i = Opened) [0..<pool_size] = [0..<pool_size]"
      if "\<forall>i<pool_size. connect i = Opened"
      using that by (simp add: filter_id_conv)
    then have "(\<forall>i<pool_size. connect i = Opened) \<longrightarrow> length (pool ?p) = pool_size"
      by (simp add: new_ConnectionPool_pool)
    with c show ?thesis by (simp add: new_ConnectionPool_pool)
  qed
  have b: "\<exists>res w' tr. serve f rq w = Inr (res, w', tr) \<and> released tr = acquired tr \<and>
           length (acquired tr) \<le> 1 \<and>
           pool (db_pool (server w')) =
             (if acquired tr = [] then pool (db_pool (server w))
              else tl (pool (db_pool (server w))) @ [hd (pool (db_pool (server w)))])"
    if "pool (db_pool (server w)) \<noteq> []" "cache_inv (cache (server w))"
      "0 < capacity (cache (server w))"
    using that by (rule serve_balanced)
  have c: "\<exists>r t' lg tr. initialize_database f p t = Inr (r, t', lg, tr) \<and>
           acquired tr = [hd (pool p)] \<and> released tr = [hd (pool p)]"
    if "pool p \<noteq> []"
  proof -
    from that obtain c rest where p: "pool p = c # rest" by (cases "pool p") auto
    show ?thesis
    proof (cases "f = No_Fault")
      case True
      with initialize_database_commit [OF p, of t] p show ?thesis by simp
    next
      case False
      from initialize_database_fault [OF p False, of t] obtain what tr where
        t: "set tr \<subseteq> {Begin, Exec Create_Table, Abort}"
          "initialize_database f p t =
             Inr (Inl what, t, [Initialization_Error what], Acquire c # tr @ [Release c])" by blast
      with acquired_aborted [OF t(1), of "[Release c]"] p show ?thesis by simp
    qed
  qed
  from a b c show ?thesis by blast
qed

text \<open>A pool of two with one connection checked out; a PUT and a startup whose store raises.\<close>

theorem pool_conservation_witness:
  "pool_reach (fst (new_ConnectionPool 2 (\<lambda>i. Opened)))
     \<lparr>shared = \<lparr>pool = [1]\<rparr>, holders = [\<lparr>conn = Some 0\<rparr>]\<rparr> \<and>
   available \<lparr>shared = \<lparr>pool = [1]\<rparr>, holders = [\<lparr>conn = Some 0\<rparr>]\<rparr>
     + checked_out \<lparr>shared = \<lparr>pool = [1]\<rparr>, holders = [\<lparr>conn = Some 0\<rparr>]\<rparr> = 2 \<and>
   (\<exists>res w' tr.
      serve (Fault_Exec ''connection lost'') (PUT ''k'' ''v'')
        \<lparr>server = \<lparr>cache = new_LRUCache CACHE_CAPACITY, db_pool = \<lparr>pool = [0, 1]\<rparr>\<rparr>,
         key_value = Map.empty\<rparr> = Inr (res, w', tr) \<and>
      released tr = acquired tr \<and> length (acquired tr) \<le> 1 \<and>
      pool (db_pool (server w')) = (if acquired tr = [] then [0, 1] else [1, 0])) \<and>
   (\<exists>r t' lg tr.
      initialize_database (Fault_Exec ''connection lost'') \<lparr>pool = [0, 1]\<rparr> Map.empty
        = Inr (r, t', lg, tr) \<and>
      acquired tr = [0] \<and> released tr = [0])"
proof -
  let ?p = "fst (new_ConnectionPool 2 (\<lambda>i. Opened))"
  let ?s = "\<lparr>shared = \<lparr>pool = [1]\<rparr>, holders = [\<lparr>conn = Some 0\<rparr>]\<rparr>"
  let ?w = "\<lparr>server = \<lparr>cache = new_LRUCache CACHE_CAPACITY, db_pool = \<lparr>pool = [0, 1]\<rparr>\<rparr>,
         key_value = Map.empty\<rparr>"
  have p: "?p = \<lparr>pool = [0, 1]\<rparr>"
    by (simp add: new_ConnectionPool_def establish_fst upt_rec)
  have "new_PooledConnection (shared \<lparr>shared = ?p, holders = []\<rparr>)
          = Inr (\<lparr>conn = Some 0\<rparr>, \<lparr>pool = [1]\<rparr>, [Acquire 0])"
    by (simp add: p new_PooledConnection_Cons)
  then have "pool_step \<lparr>shared = ?p, holders = []\<rparr>
               \<lparr>shared = \<lparr>pool = [1]\<rparr>, holders = \<lparr>conn = Some 0\<rparr> # holders \<lparr>shared = ?p, holders = []\<rparr>\<rparr>"
    by (rule pool_step.construct)
  then have "pool_step \<lparr>shared = ?p, holders = []\<rparr> ?s" by simp
  with pool_reach.start [of ?p] have r: "pool_reach ?p ?s" by (rule pool_reach.step)
  have h: "pool (db_pool (server ?w)) \<noteq> []" "cache_inv (cache (server ?w))"
    "0 < capacity (cache (server ?w))" "pool \<lparr>pool = [0, 1::nat]\<rparr> \<noteq> []"
    by (simp_all add: cache_inv_new) (simp add: new_LRUCache_def CACHE_CAPACITY_def)
  from pool_conservation [where pool_size = 2 and connect = "\<lambda>i. Opened" and s = ?s and w = ?w
      and f = "Fault_Exec ''connection lost''" and rq = "PUT ''k'' ''v''"
      and p = "\<lparr>pool = [0, 1]\<rparr>" and t = Map.empty] r h
  show ?thesis by (simp cong del: if_weak_cong)
qed

text \<open>
  C8, as amended. Every connection that fails to establish is logged, one message for each
  in the order of the attempts, and dropped. With at least one connection established, a
  table creation that raises is fatal: main logs the initialization error and the fatal
  error after the connection errors and returns 1 without listening. Connections that fail
  to establish are not fatal: with at least one established and the table created, main
  logs the same connection errors, then the table, the pool and the port, and serves with
  exactly the connections that opened.
\<close>

theorem startup_failures:
  "(i < DB_POOL_SIZE \<and> connect i = Opened \<and>
      (f = Fault_Begin what \<or> f = Fault_Exec what \<or> f = Fault_Commit what) \<longrightarrow>
      main connect f t =
        Inr (Returned 1,
             map (\<lambda>j. case connect j of Connect_Threw e \<Rightarrow> Connection_Error e
                        | _ \<Rightarrow> Connection_Error ''Failed to open DB connection for pool'')
               (filter (\<lambda>j. connect j \<noteq> Opened) [0..<DB_POOL_SIZE])
             @ [Initialization_Error what, Fatal_Error what]))
   \<and> (i < DB_POOL_SIZE \<and> connect i = Opened \<longrightarrow>
      main connect No_Fault t =
        Inr (Serving \<lparr>server = \<lparr>cache = new_LRUCache CACHE_CAPACITY,
                                  db_pool = \<lparr>pool = tl (filter (\<lambda>j. connect j = Opened) [0..<DB_POOL_SIZE])
                                                    @ [hd (filter (\<lambda>j. connect j = Opened) [0..<DB_POOL_SIZE])]\<rparr>\<rparr>,
                       key_value = t\<rparr>,
             map (\<lambda>j. case connect j of Connect_Threw e \<Rightarrow> Connection_Error e
                        | _ \<Rightarrow> Connection_Error ''Failed to open DB connection for pool'')
               (filter (\<lambda>j. connect j \<noteq> Opened) [0..<DB_POOL_SIZE])
             @ [Table_Initialized, Pool_Created DB_POOL_SIZE, Listening 8080]) \<and>
      filter (\<lambda>j. connect j = Opened) [0..<DB_POOL_SIZE] \<noteq> [] \<and>
      length (filter (\<lambda>j. connect j = Opened) [0..<DB_POOL_SIZE])
        + length (filter (\<lambda>j. connect j \<noteq> Opened) [0..<DB_POOL_SIZE]) = DB_POOL_SIZE)"
proof -
  let ?opened = "filter (\<lambda>j. connect j = Opened) [0..<DB_POOL_SIZE]"
  let ?errors = "map (\<lambda>j. case connect j of Connect_Threw e \<Rightarrow> Connection_Error e
                        | _ \<Rightarrow> Connection_Error ''Failed to open DB connection for pool'')
               (filter (\<lambda>j. connect j \<noteq> Opened) [0..<DB_POOL_SIZE])"
  have lg: "snd (establish connect DB_POOL_SIZE) = ?errors" by (rule establish_snd)
  have a: "main connect f t = Inr (Returned 1, ?errors @ [Initialization_Error what, Fatal_Error what])"
    if "i < DB_POOL_SIZE" "connect i = Opened"
      "f = Fault_Begin what \<or> f = Fault_Exec what \<or> f = Fault_Commit what"
  proof -
    from establish_nonempty [of i DB_POOL_SIZE connect, OF that(1,2)] obtain c rest where
      "fst (establish connect DB_POOL_SIZE) = c # rest"
      by (cases "fst (establish connect DB_POOL_SIZE)") auto
    then have "pool (fst (new_ConnectionPool DB_POOL_SIZE connect)) = c # rest"
      by (simp add: new_ConnectionPool_def)
    from initialize_database_what [OF this that(3), of t] obtain tr where
      "initialize_database f (fst (new_ConnectionPool DB_POOL_SIZE connect)) t =
           Inr (Inl what, t, [Initialization_Error what], Acquire c # tr @ [Release c])" by blast
    then have "main connect f t = Inr (Returned 1,
        snd (establish connect DB_POOL_SIZE) @ [Initialization_Error what, Fatal_Error what])"
      by (simp add: main_def new_ServerApp_def new_ConnectionPool_def)
    then show ?thesis by (simp only: lg)
  qed
  have b: "main connect No_Fault t =
        Inr (Serving \<lparr>server = \<lparr>cache = new_LRUCache CACHE_CAPACITY,
                                  db_pool = \<lparr>pool = tl ?opened @ [hd ?opened]\<rparr>\<rparr>,
                       key_value = t\<rparr>,
             ?errors @ [Table_Initialized, Pool_Created DB_POOL_SIZE, Listening 8080]) \<and>
      ?opened \<noteq> [] \<and>
      length ?opened + length (filter (\<lambda>j. connect j \<noteq> Opened) [0..<DB_POOL_SIZE]) = DB_POOL_SIZE"
    if "i < DB_POOL_SIZE" "connect i = Opened"
  proof -
    from establish_nonempty [of i DB_POOL_SIZE connect, OF that(1,2)] obtain c rest where
      e: "fst (establish connect DB_POOL_SIZE) = c # rest"
      by (cases "fst (establish connect DB_POOL_SIZE)") auto
    then have o: "?opened = c # rest" by (simp add: establish_fst)
    from new_ServerApp_commit [OF e, of t] have
      "main connect No_Fault t = Inr (Serving \<lparr>server = \<lparr>cache = new_LRUCache CACHE_CAPACITY,
                                  db_pool = \<lparr>pool = rest @ [c]\<rparr>\<rparr>, key_value = t\<rparr>,
        snd (establish connect DB_POOL_SIZE) @ [Table_Initialized, Pool_Created DB_POOL_SIZE, Listening 8080])"
      by (simp add: main_def)
    then have m: "main connect No_Fault t = Inr (Serving \<lparr>server = \<lparr>cache = new_LRUCache CACHE_CAPACITY,
                                  db_pool = \<lparr>pool = rest @ [c]\<rparr>\<rparr>, key_value = t\<rparr>,
        ?errors @ [Table_Initialized, Pool_Created DB_POOL_SIZE, Listening 8080])"
      by (simp only: lg)
    have "length ?opened + length (filter (\<lambda>j. connect j \<noteq> Opened) [0..<DB_POOL_SIZE])
            = length [0..<DB_POOL_SIZE]"
      by (rule sum_length_filter_compl)
    then have "length ?opened + length (filter (\<lambda>j. connect j \<noteq> Opened) [0..<DB_POOL_SIZE])
            = DB_POOL_SIZE" by simp
    with m o show ?thesis by simp
  qed
  from a b show ?thesis by blast
qed

text \<open>The first connection does not open, the other 63 do; the table creation raises, or not.\<close>

theorem startup_failures_witness:
  "main (\<lambda>i. if i = 0 then Not_Open else Opened) (Fault_Exec ''permission denied'') Map.empty
     = Inr (Returned 1,
            [Connection_Error ''Failed to open DB connection for pool'',
             Initialization_Error ''permission denied'', Fatal_Error ''permission denied''])
   \<and> main (\<lambda>i. if i = 0 then Not_Open else Opened) No_Fault Map.empty
     = Inr (Serving \<lparr>server = \<lparr>cache = new_LRUCache CACHE_CAPACITY,
                                 db_pool = \<lparr>pool = [2..<64] @ [1]\<rparr>\<rparr>,
                      key_value = Map.empty\<rparr>,
            [Connection_Error ''Failed to open DB connection for pool'', Table_Initialized,
             Pool_Created 64, Listening 8080])"
proof -
  let ?connect = "\<lambda>i::nat. if i = 0 then Not_Open else Opened"
  have h: "(1::nat) < DB_POOL_SIZE" "?connect 1 = Opened"
    "Fault_Exec ''permission denied'' = Fault_Begin ''permission denied'' \<or>
     Fault_Exec ''permission denied'' = Fault_Exec ''permission denied'' \<or>
     Fault_Exec ''permission denied'' = Fault_Commit ''permission denied''"
    by (simp_all add: DB_POOL_SIZE_def)
  have u: "[0..<DB_POOL_SIZE] = 0 # 1 # [2..<64]"
    by (simp add: DB_POOL_SIZE_def upt_conv_Cons)
  have "filter (\<lambda>j. ?connect j = Opened) [2..<64] = [2..<64]" by (simp add: filter_id_conv)
  then have P: "filter (\<lambda>j. ?connect j = Opened) [0..<DB_POOL_SIZE] = 1 # [2..<64]"
    unfolding u by simp
  have "filter (\<lambda>j. ?connect j \<noteq> Opened) [2..<64] = []" by (simp add: filter_empty_conv)
  then have E: "filter (\<lambda>j. ?connect j \<noteq> Opened) [0..<DB_POOL_SIZE] = [0]"
    unfolding u by simp
  note th = startup_failures [where i = 1 and connect = ?connect
      and f = "Fault_Exec ''permission denied''" and what = "''permission denied''"
      and t = Map.empty]
  from th h have
    "main ?connect (Fault_Exec ''permission denied'') Map.empty =
        Inr (Returned 1,
             map (\<lambda>j. case ?connect j of Connect_Threw e \<Rightarrow> Connection_Error e
                        | _ \<Rightarrow> Connection_Error ''Failed to open DB connection for pool'')
               (filter (\<lambda>j. ?connect j \<noteq> Opened) [0..<DB_POOL_SIZE])
             @ [Initialization_Error ''permission denied'', Fatal_Error ''permission denied''])"
    and "main ?connect No_Fault Map.empty =
        Inr (Serving \<lparr>server = \<lparr>cache = new_LRUCache CACHE_CAPACITY,
                                  db_pool = \<lparr>pool = tl (filter (\<lambda>j. ?connect j = Opened) [0..<DB_POOL_SIZE])
                                                    @ [hd (filter (\<lambda>j. ?connect j = Opened) [0..<DB_POOL_SIZE])]\<rparr>\<rparr>,
                       key_value = Map.empty\<rparr>,
             map (\<lambda>j. case ?connect j of Connect_Threw e \<Rightarrow> Connection_Error e
                        | _ \<Rightarrow> Connection_Error ''Failed to open DB connection for pool'')
               (filter (\<lambda>j. ?connect j \<noteq> Opened) [0..<DB_POOL_SIZE])
             @ [Table_Initialized, Pool_Created DB_POOL_SIZE, Listening 8080])"
    by blast+
  then show ?thesis unfolding P E by (simp add: DB_POOL_SIZE_def)
qed

text \<open>
  C8 as stated fails: the first of the 64 connections does not open, and main goes on to
  listen with a pool of 63.
\<close>

theorem degraded_pool_serves:
  "main (\<lambda>i. if i = 0 then Not_Open else Opened) No_Fault Map.empty
   = Inr (Serving \<lparr>server = \<lparr>cache = new_LRUCache CACHE_CAPACITY,
                               db_pool = \<lparr>pool = [2..<64] @ [1]\<rparr>\<rparr>,
                    key_value = Map.empty\<rparr>,
          [Connection_Error ''Failed to open DB connection for pool'', Table_Initialized,
           Pool_Created 64, Listening 8080]) \<and>
   length ([2..<64] @ [1::nat]) = 63 \<and> DB_POOL_SIZE = 64"
proof -
  have "fst (establish (\<lambda>i. if i = 0 then Not_Open else Opened) DB_POOL_SIZE) = 1 # [2..<64]"
    by (simp add: establish_first_fails DB_POOL_SIZE_def)
  from new_ServerApp_commit [OF this, of Map.empty] show ?thesis
    by (simp add: main_def establish_first_fails DB_POOL_SIZE_def)
qed

text \<open>
  C9. The first of the 64 connections does not open: the constructor of the pool logs the
  failure and drops the connection, the pool holds 63, and the constructor of the server
  reports 64, the size requested.
\<close>

theorem pool_size_report:
  "new_ConnectionPool DB_POOL_SIZE (\<lambda>i. if i = 0 then Not_Open else Opened)
   = (\<lparr>pool = 1 # [2..<64]\<rparr>, [Connection_Error ''Failed to open DB connection for pool'']) \<and>
   length (1 # [2..<64]) = 63 \<and>
   new_ServerApp (\<lambda>i. if i = 0 then Not_Open else Opened) No_Fault Map.empty
   = Inr (Inr \<lparr>server = \<lparr>cache = new_LRUCache CACHE_CAPACITY,
                           db_pool = \<lparr>pool = [2..<64] @ [1]\<rparr>\<rparr>,
                key_value = Map.empty\<rparr>,
          [Connection_Error ''Failed to open DB connection for pool'', Table_Initialized,
           Pool_Created 64])"
proof -
  have "fst (establish (\<lambda>i. if i = 0 then Not_Open else Opened) DB_POOL_SIZE) = 1 # [2..<64]"
    by (simp add: establish_first_fails DB_POOL_SIZE_def)
  from new_ServerApp_commit [OF this, of Map.empty] show ?thesis
    by (simp add: new_ConnectionPool_def establish_first_fails DB_POOL_SIZE_def)
qed

end
